theory Spec2Isabelle
  imports Main "HOL-Library.AList" "HOL-Library.Word"
begin

section \<open>The archiver of hypercloud (lib/archiver.js)\<close>

text \<open>
  The class \<open>Archiver\<close> runs on the JavaScript event loop: one thread, and every piece
  of code between two suspension points (\<open>await\<close>, a callback of the storage, the swarm,
  a stream or a timer) runs to completion before the next one starts. The model is a
  transition system whose steps are exactly these pieces. An \<open>event\<close> is what the
  outside world does: a caller invokes a method, or a library calls back. The promise
  reactions registered on a promise (\<open>p.then(...)\<close>) are micro-tasks: they run right after
  the piece of code that settled the promise and before any other callback, so a step
  that settles a promise also runs its reactions.

  What the libraries do is not part of the repository. The model records the calls the
  archiver makes on them (storage instances constructed, \<open>close\<close> and \<open>destroy\<close> calls),
  and takes their answers from the events: the settling of \<open>mkdirp\<close>, the \<open>ready\<close> and
  \<open>close\<close> callbacks of an archive, a new connection of a swarm, the \<open>close\<close>,
  \<open>handshake\<close> and \<open>error\<close> events of a stream, a timer coming due. In particular the
  \<open>close\<close> event of a stream is an event of its own, also for a stream that has been
  destroyed. Of the library calls only \<open>datEncoding.toStr\<close> and the \<open>destroy\<close> method of
  a stream can throw in the model; the others return.
\<close>

subsection \<open>Values\<close>

datatype error = Error string

datatype 'a promise = Pending | Fulfilled 'a | Rejected error

text \<open>A key argument is a string or a Buffer.\<close>

datatype key_arg = KStr string | KBuf "8 word list"

text \<open>
  \<open>toStr\<close> is \<open>datEncoding.toStr\<close> (package dat-encoding), which returns the canonical
  string of a key or throws (\<open>Inl\<close>). \<open>bufToString\<close> is the string JavaScript uses when a
  Buffer is the key of a property access (\<open>Buffer.prototype.toString()\<close>).
\<close>

record env =
  toStr :: "key_arg \<Rightarrow> error + string"
  bufToString :: "8 word list \<Rightarrow> string"

text \<open>The property key of \<open>obj[key]\<close> and \<open>key in obj\<close>: a string is used as it is.\<close>

fun propKey :: "env \<Rightarrow> key_arg \<Rightarrow> string" where
  "propKey E (KStr s) = s"
| "propKey E (KBuf b) = bufToString E b"

subsection \<open>Objects\<close>

datatype swarm_state = Joined | Left

text \<open>
  A hyperdrive instance with the two properties the archiver adds to it,
  \<open>replicationStreams\<close> (line 93) and \<open>swarm\<close> (line 141, \<open>None\<close> before). \<open>closeCalls\<close>
  counts the calls of \<open>archive.close\<close>. Streams are referred to by their index in the
  list \<open>streams\<close> of the state, archives by their index in \<open>objs\<close>.
\<close>

record archive =
  akey :: string
  replicationStreams :: "nat list"
  swarm :: "swarm_state option"
  closeCalls :: nat

datatype timer = Armed nat | Fired | Cleared

text \<open>
  A replication stream (lines 115 to 133): the archive of whose closure it is part, whether
  the \<open>once('close')\<close> and \<open>once('handshake')\<close> listeners are still registered, the timer
  \<open>TO\<close> (with the time at which it is due), the arguments of the \<open>destroy\<close> calls made on
  it, whether its \<open>close\<close> event has been emitted, and what its \<open>destroy\<close> method does
  (\<open>None\<close>: returns, \<open>Some e\<close>: throws \<open>e\<close>).
\<close>

record stream =
  owner :: nat
  onceClose :: bool
  onceHandshake :: bool
  TO :: timer
  destroyCalls :: "error option list"
  closed :: bool
  destroyThrows :: "error option"

text \<open>The promise of one \<open>_loadArchiveInner\<close> call, with its arguments' key and its archive.\<close>

record inner =
  ikey :: string
  iarchive :: nat
  iresult :: "nat promise"

text \<open>
  One invocation of \<open>loadArchive\<close>: suspended at \<open>await mkdirp\<close> (line 49) with its local
  \<open>key\<close>; returned an archive (line 39); returned the promise of an inner load
  (lines 44 and 62); or threw (\<open>toStr\<close> at line 35, or \<open>mkdirp\<close> rejected).
\<close>

datatype load_call =
    AwaitMkdirp string
  | ReturnedArchive nat
  | ReturnedPromise nat
  | LoadThrew error

text \<open>
  One invocation of \<open>closeArchive\<close>: suspended at the \<open>await\<close> of line 71 with its locals
  \<open>key\<close> and \<open>archive\<close>; returned; or threw.
\<close>

datatype close_call =
    AwaitClose string nat
  | CloseReturned
  | CloseThrew error

text \<open>The calls of \<open>debug\<close> (lines 112, 125, 131, 132, 137 and 140).\<close>

datatype log_entry =
    NewConnection nat
  | HandshakeTimeout nat
  | StreamErrorLog nat error
  | ClosingConnection nat
  | SwarmErrorLog string error
  | SwarmingArchive string

text \<open>
  \<open>archives\<close> and \<open>loadPromises\<close> are the two objects of the constructor (lines 18, 19),
  as association lists in insertion order, the order of \<open>Object.keys\<close>. The other fields
  are the objects and calls that exist: every hyperdrive instance constructed, every
  inner load promise, every call of \<open>loadArchive\<close>, \<open>closeArchive\<close> and \<open>closeAllArchives\<close>
  (the latter as the list of the \<open>closeArchive\<close> calls handed to \<open>Promise.all\<close>), every
  stream, the clock in milliseconds and the debug log.
\<close>

record state =
  archives :: "(string \<times> nat) list"
  loadPromises :: "(string \<times> nat) list"
  objs :: "archive list"
  inners :: "inner list"
  loads :: "load_call list"
  closes :: "close_call list"
  closeAlls :: "nat list list"
  streams :: "stream list"
  now :: nat
  log :: "log_entry list"

definition init :: state where
  "init = \<lparr>archives = [], loadPromises = [], objs = [], inners = [], loads = [],
     closes = [], closeAlls = [], streams = [], now = 0, log = []\<rparr>"

subsection \<open>Synchronous lookups (lines 25 to 31)\<close>

definition getArchive :: "env \<Rightarrow> state \<Rightarrow> key_arg \<Rightarrow> nat option" where
  "getArchive E s key = map_of (archives s) (propKey E key)"

definition isLoadingArchive :: "env \<Rightarrow> state \<Rightarrow> key_arg \<Rightarrow> bool" where
  "isLoadingArchive E s key = (map_of (loadPromises s) (propKey E key) \<noteq> None)"

subsection \<open>loadArchive (lines 34 to 63) and _loadArchiveInner (lines 90 to 144)\<close>

text \<open>Lines 35 to 49: from the call to the first suspension. The registry is only read.\<close>

definition loadArchive_enter :: "env \<Rightarrow> state \<Rightarrow> key_arg \<Rightarrow> load_call" where
  "loadArchive_enter E s key0 =
     (case toStr E key0 of
        Inl e \<Rightarrow> LoadThrew e
      | Inr key \<Rightarrow>
          (case map_of (archives s) key of
             Some a \<Rightarrow> ReturnedArchive a
           | None \<Rightarrow>
               (case map_of (loadPromises s) key of
                  Some p \<Rightarrow> ReturnedPromise p
                | None \<Rightarrow> AwaitMkdirp key)))"

definition loadArchive :: "env \<Rightarrow> key_arg \<Rightarrow> state \<Rightarrow> state" where
  "loadArchive E key0 s = s\<lparr>loads := loads s @ [loadArchive_enter E s key0]\<rparr>"

text \<open>
  Lines 92 to 101, the synchronous start of \<open>_loadArchiveInner\<close>: a hyperdrive instance
  is constructed (the storage is opened) and its \<open>ready\<close> callback awaited.
\<close>

definition loadArchiveInner_start :: "string \<Rightarrow> state \<Rightarrow> state" where
  "loadArchiveInner_start key s =
     s\<lparr>objs := objs s @ [\<lparr>akey = key, replicationStreams = [], swarm = None, closeCalls = 0\<rparr>],
       inners := inners s @ [\<lparr>ikey = key, iarchive = length (objs s), iresult = Pending\<rparr>]\<rparr>"

text \<open>
  The promise of \<open>mkdirp\<close> awaited by call \<open>c\<close> settles. When it rejects, the call throws.
  Otherwise lines 52 to 62 run: the inner load starts, its promise \<open>p\<close> is stored in
  \<open>loadPromises\<close> and returned.
\<close>

definition mkdirpSettled :: "nat \<Rightarrow> error option \<Rightarrow> state \<Rightarrow> state" where
  "mkdirpSettled c r s =
     (if c < length (loads s) then
        (case loads s ! c of
           AwaitMkdirp key \<Rightarrow>
             (case r of
                Some e \<Rightarrow> s\<lparr>loads := (loads s)[c := LoadThrew e]\<rparr>
              | None \<Rightarrow>
                  (let p = length (inners s);
                       s1 = loadArchiveInner_start key s
                   in s1\<lparr>loadPromises := AList.update key p (loadPromises s1),
                          loads := (loads s1)[c := ReturnedPromise p]\<rparr>))
         | _ \<Rightarrow> s)
      else s)"

text \<open>
  The \<open>ready\<close> callback of the archive of inner load \<open>p\<close> is called (lines 97 to 100).
  With an error the promise rejects; the reaction \<open>clear\<close> (lines 56, 57) deletes the
  entry of \<open>loadPromises\<close> and the reaction of line 60 does not run. Without, lines 104
  to 143 run (the swarm is created and joined), the promise fulfils with the archive,
  \<open>clear\<close> runs and line 60 stores the archive in \<open>archives\<close>.
\<close>

definition readyCallback :: "nat \<Rightarrow> error option \<Rightarrow> state \<Rightarrow> state" where
  "readyCallback p r s =
     (if p < length (inners s) \<and> iresult (inners s ! p) = Pending then
        (let i = inners s ! p; key = ikey i; a = iarchive i in
         case r of
           Some e \<Rightarrow>
             s\<lparr>inners := (inners s)[p := i\<lparr>iresult := Rejected e\<rparr>],
               loadPromises := AList.delete key (loadPromises s)\<rparr>
         | None \<Rightarrow>
             s\<lparr>objs := (objs s)[a := (objs s ! a)\<lparr>swarm := Some Joined\<rparr>],
               log := log s @ [SwarmingArchive key],
               inners := (inners s)[p := i\<lparr>iresult := Fulfilled a\<rparr>],
               loadPromises := AList.delete key (loadPromises s),
               archives := AList.update key a (archives s)\<rparr>)
      else s)"

text \<open>
  What the promise returned by call \<open>c\<close> of \<open>loadArchive\<close> is: an async function that
  returns a promise takes over the state of that promise.
\<close>

definition loadResult :: "state \<Rightarrow> nat \<Rightarrow> nat promise" where
  "loadResult s c =
     (case loads s ! c of
        AwaitMkdirp key \<Rightarrow> Pending
      | ReturnedArchive a \<Rightarrow> Fulfilled a
      | ReturnedPromise p \<Rightarrow> iresult (inners s ! p)
      | LoadThrew e \<Rightarrow> Rejected e)"

text \<open>The number of storage instances opened for a key.\<close>

definition opens :: "state \<Rightarrow> string \<Rightarrow> nat" where
  "opens s key = length (filter (\<lambda>a. akey a = key) (objs s))"

subsection \<open>closeArchive (lines 65 to 74) and closeAllArchives (lines 76 to 80)\<close>

text \<open>
  Line 69: \<open>destroy()\<close> is called on the streams of the collection in order. An
  exception of one call ends the loop and leaves \<open>closeArchive\<close>.
\<close>

fun destroyAll :: "nat list \<Rightarrow> stream list \<Rightarrow> stream list \<times> error option" where
  "destroyAll [] ss = (ss, None)"
| "destroyAll (i # is) ss =
     (let ss' = ss[i := (ss ! i)\<lparr>destroyCalls := destroyCalls (ss ! i) @ [None]\<rparr>] in
      case destroyThrows (ss ! i) of
        Some e \<Rightarrow> (ss', Some e)
      | None \<Rightarrow> destroyAll is ss')"

text \<open>
  Lines 66 to 71: from the call to the suspension at \<open>await\<close>. When the key has no entry
  in \<open>archives\<close> the function returns at once.
\<close>

definition closeArchive_enter :: "env \<Rightarrow> key_arg \<Rightarrow> state \<Rightarrow> state \<times> close_call" where
  "closeArchive_enter E key0 s =
     (case toStr E key0 of
        Inl e \<Rightarrow> (s, CloseThrew e)
      | Inr key \<Rightarrow>
          (case map_of (archives s) key of
             None \<Rightarrow> (s, CloseReturned)
           | Some a \<Rightarrow>
               (case destroyAll (replicationStreams (objs s ! a)) (streams s) of
                  (ss, Some e) \<Rightarrow> (s\<lparr>streams := ss\<rparr>, CloseThrew e)
                | (ss, None) \<Rightarrow>
                    (s\<lparr>streams := ss,
                       objs := (objs s)[a := (objs s ! a)\<lparr>swarm := Some Left,
                                 closeCalls := Suc (closeCalls (objs s ! a))\<rparr>]\<rparr>,
                     AwaitClose key a))))"

definition closeArchive :: "env \<Rightarrow> key_arg \<Rightarrow> state \<Rightarrow> state" where
  "closeArchive E key0 s =
     (case closeArchive_enter E key0 s of (s', c) \<Rightarrow> s'\<lparr>closes := closes s' @ [c]\<rparr>)"

text \<open>
  The callback of \<open>archive.close\<close> is \<open>resolve\<close> itself (line 71): whatever it is called
  with, the awaited promise fulfils, and line 72 deletes the entry of \<open>archives\<close>.
\<close>

definition closeCallback :: "nat \<Rightarrow> error option \<Rightarrow> state \<Rightarrow> state" where
  "closeCallback c r s =
     (if c < length (closes s) then
        (case closes s ! c of
           AwaitClose key a \<Rightarrow>
             s\<lparr>archives := AList.delete key (archives s),
               closes := (closes s)[c := CloseReturned]\<rparr>
         | _ \<Rightarrow> s)
      else s)"

definition closeResult :: "state \<Rightarrow> nat \<Rightarrow> unit promise" where
  "closeResult s c =
     (case closes s ! c of
        AwaitClose key a \<Rightarrow> Pending
      | CloseReturned \<Rightarrow> Fulfilled ()
      | CloseThrew e \<Rightarrow> Rejected e)"

text \<open>
  Lines 77 to 79: \<open>closeArchive\<close> is called for every key of \<open>archives\<close>, in the order of
  \<open>Object.keys\<close>, and the promises go to \<open>Promise.all\<close>.
\<close>

definition closeAllArchives :: "env \<Rightarrow> state \<Rightarrow> state" where
  "closeAllArchives E s =
     (let ks = map fst (archives s);
          n = length (closes s);
          s' = fold (\<lambda>key. closeArchive E (KStr key)) ks s
      in s'\<lparr>closeAlls := closeAlls s' @ [upt n (n + length ks)]\<rparr>)"

text \<open>
  \<open>Promise.all\<close>: rejected as soon as one element is rejected, fulfilled when all are
  fulfilled. A promise of \<open>closeArchive\<close> rejects only in the synchronous part of its call,
  so the first rejection to arrive is the first one in the array.
\<close>

fun promiseAll :: "unit promise list \<Rightarrow> unit promise" where
  "promiseAll [] = Fulfilled ()"
| "promiseAll (Rejected e # rs) = Rejected e"
| "promiseAll (Fulfilled v # rs) = promiseAll rs"
| "promiseAll (Pending # rs) = (case promiseAll rs of Rejected e \<Rightarrow> Rejected e | _ \<Rightarrow> Pending)"


subsection \<open>The stream callback of the swarm (lines 108 to 134)\<close>

definition handshakeTimeout :: nat where
  "handshakeTimeout = 5000"

definition timeoutError :: error where
  "timeoutError = Error ''Timed out waiting for handshake''"

text \<open>
  The swarm of archive \<open>a\<close> asks for a stream for a new connection: the stream is created
  and pushed on the collection, the listeners are registered and the timer is set.
\<close>

definition connection :: "nat \<Rightarrow> error option \<Rightarrow> state \<Rightarrow> state" where
  "connection a thr s =
     (if a < length (objs s) \<and> swarm (objs s ! a) = Some Joined then
        s\<lparr>log := log s @ [NewConnection a],
          streams := streams s @
            [\<lparr>owner = a, onceClose = True, onceHandshake = True,
              TO = Armed (now s + handshakeTimeout), destroyCalls = [], closed = False,
              destroyThrows = thr\<rparr>],
          objs := (objs s)[a := (objs s ! a)\<lparr>replicationStreams :=
                    replicationStreams (objs s ! a) @ [length (streams s)]\<rparr>]\<rparr>
      else s)"

text \<open>
  The stream emits \<open>close\<close>. The \<open>once\<close> listener of lines 117 to 121 removes the
  stream from the collection, if it is there; the listener of line 132 logs.
\<close>

definition streamClose :: "nat \<Rightarrow> state \<Rightarrow> state" where
  "streamClose sid s =
     (if sid < length (streams s) then
        (let st = streams s ! sid; a = owner st in
         s\<lparr>objs := (if onceClose st
                     then (objs s)[a := (objs s ! a)\<lparr>replicationStreams :=
                            remove1 sid (replicationStreams (objs s ! a))\<rparr>]
                     else objs s),
           streams := (streams s)[sid := st\<lparr>onceClose := False, closed := True\<rparr>],
           log := log s @ [ClosingConnection sid]\<rparr>)
      else s)"

text \<open>The stream emits \<open>handshake\<close>: line 128, \<open>clearTimeout(TO)\<close>.\<close>

definition streamHandshake :: "nat \<Rightarrow> state \<Rightarrow> state" where
  "streamHandshake sid s =
     (if sid < length (streams s) \<and> onceHandshake (streams s ! sid) then
        (let st = streams s ! sid in
         s\<lparr>streams := (streams s)[sid := st\<lparr>onceHandshake := False,
              TO := (case TO st of Armed due \<Rightarrow> Cleared | t \<Rightarrow> t)\<rparr>]\<rparr>)
      else s)"

text \<open>
  The timer of a stream runs its callback (lines 125, 126), which it can do once, when it
  is still set and due.
\<close>

definition timerFire :: "nat \<Rightarrow> state \<Rightarrow> state" where
  "timerFire sid s =
     (if sid < length (streams s) then
        (let st = streams s ! sid in
         case TO st of
           Armed due \<Rightarrow>
             (if due \<le> now s then
                s\<lparr>log := log s @ [HandshakeTimeout sid],
                  streams := (streams s)[sid := st\<lparr>TO := Fired,
                    destroyCalls := destroyCalls st @ [Some timeoutError]\<rparr>]\<rparr>
              else s)
         | _ \<Rightarrow> s)
      else s)"

text \<open>The listeners of lines 131 and 137 only log.\<close>

definition streamError :: "nat \<Rightarrow> error \<Rightarrow> state \<Rightarrow> state" where
  "streamError sid e s =
     (if sid < length (streams s) then s\<lparr>log := log s @ [StreamErrorLog sid e]\<rparr> else s)"

definition swarmError :: "nat \<Rightarrow> error \<Rightarrow> state \<Rightarrow> state" where
  "swarmError a e s =
     (if a < length (objs s) \<and> swarm (objs s ! a) \<noteq> None
      then s\<lparr>log := log s @ [SwarmErrorLog (akey (objs s ! a)) e]\<rparr> else s)"

subsection \<open>Events and runs\<close>

datatype event =
    LoadArchive key_arg
  | MkdirpSettled nat "error option"
  | ReadyCallback nat "error option"
  | CloseArchive key_arg
  | CloseCallback nat "error option"
  | CloseAllArchives
  | Connection nat "error option"
  | StreamClose nat
  | StreamHandshake nat
  | StreamError nat error
  | SwarmError nat error
  | TimerFire nat
  | Tick nat

fun step :: "env \<Rightarrow> state \<Rightarrow> event \<Rightarrow> state" where
  "step E s (LoadArchive key) = loadArchive E key s"
| "step E s (MkdirpSettled c r) = mkdirpSettled c r s"
| "step E s (ReadyCallback p r) = readyCallback p r s"
| "step E s (CloseArchive key) = closeArchive E key s"
| "step E s (CloseCallback c r) = closeCallback c r s"
| "step E s CloseAllArchives = closeAllArchives E s"
| "step E s (Connection a thr) = connection a thr s"
| "step E s (StreamClose sid) = streamClose sid s"
| "step E s (StreamHandshake sid) = streamHandshake sid s"
| "step E s (StreamError sid e) = streamError sid e s"
| "step E s (SwarmError a e) = swarmError a e s"
| "step E s (TimerFire sid) = timerFire sid s"
| "step E s (Tick d) = s\<lparr>now := now s + d\<rparr>"

definition run :: "env \<Rightarrow> state \<Rightarrow> event list \<Rightarrow> state" where
  "run E s evs = foldl (step E) s evs"

text \<open>
  An environment for examples: a string of 64 lower-case hexadecimal digits is its own
  canonical form, a Buffer of 32 bytes has its digits as canonical form, anything else is
  refused; a Buffer of ASCII bytes converts to the string of these characters.
\<close>

definition hexDigit :: "nat \<Rightarrow> char" where
  "hexDigit n = ''0123456789abcdef'' ! n"

definition hexByte :: "8 word \<Rightarrow> string" where
  "hexByte w = [hexDigit (unat w div 16), hexDigit (unat w mod 16)]"

definition sampleEnv :: env where
  "sampleEnv =
     \<lparr>toStr = (\<lambda>k. case k of
         KStr s \<Rightarrow> if length s = 64 \<and> set s \<subseteq> set ''0123456789abcdef''
                   then Inr s else Inl (Error ''Invalid key'')
       | KBuf b \<Rightarrow> if length b = 32 then Inr (concat (map hexByte b))
                   else Inl (Error ''Invalid buffer'')),
      bufToString = map (\<lambda>w. char_of (unat w))\<rparr>"

definition keyA :: string where
  "keyA = replicate 64 CHR ''a''"

definition keyB :: string where
  "keyB = replicate 64 CHR ''b''"

text \<open>States used in the examples: \<open>keyA\<close> is being loaded; \<open>keyA\<close> and \<open>keyB\<close> are resident.\<close>

definition loadingState :: state where
  "loadingState = run sampleEnv init [LoadArchive (KStr keyA), MkdirpSettled 0 None]"

definition residentState :: state where
  "residentState = run sampleEnv init
     [LoadArchive (KStr keyA), MkdirpSettled 0 None, ReadyCallback 0 None,
      LoadArchive (KStr keyB), MkdirpSettled 1 None, ReadyCallback 1 None]"

text \<open>\<open>keyA\<close> is being closed: \<open>closeArchive(keyA)\<close> waits for the storage to close.\<close>

definition closingState :: state where
  "closingState = run sampleEnv residentState [CloseArchive (KStr keyA)]"

text \<open>
  Two peers have connected to the archive of \<open>keyA\<close>; the same, five seconds later; and
  \<open>keyA\<close> and \<open>keyB\<close> resident, with one stream on \<open>keyA\<close> whose \<open>destroy\<close> throws.
\<close>

definition connectedEvents :: "event list" where
  "connectedEvents =
     [LoadArchive (KStr keyA), MkdirpSettled 0 None, ReadyCallback 0 None,
      Connection 0 None, Connection 0 None]"

definition timedOutEvents :: "event list" where
  "timedOutEvents = connectedEvents @ [Tick 5000]"



section \<open>The per-key lock and UsersDB.put (lib/dbs/users.js, lines 49 to 60)\<close>

subsection \<open>KeyedMutex\<close>

text \<open>
  Modelled from the spec: the function \<open>lock\<close> of lib/lock.js, which \<open>put\<close> calls and
  which is not among the sources. The spec (4.4) gives \<open>acquire(key) -> release()\<close>: a
  second \<open>acquire\<close> of a key suspends until the holder calls \<open>release\<close>, acquisitions of
  a key are granted in arrival order, and distinct keys do not block one another. So each
  key has a flag (the lock is held) and a queue of suspended callers; \<open>acquire\<close> takes a
  free lock at once or joins the end of the queue, \<open>release\<close> hands the lock to the head
  of the queue or frees it.
\<close>

record mutex =
  acquired :: "string \<Rightarrow> bool"
  waiting :: "string \<Rightarrow> nat list"

definition acquire :: "string \<Rightarrow> nat \<Rightarrow> mutex \<Rightarrow> mutex \<times> bool" where
  "acquire key t m =
     (if acquired m key
      then (m\<lparr>waiting := (waiting m)(key := waiting m key @ [t])\<rparr>, False)
      else (m\<lparr>acquired := (acquired m)(key := True)\<rparr>, True))"

definition release :: "string \<Rightarrow> mutex \<Rightarrow> mutex \<times> nat option" where
  "release key m =
     (case waiting m key of
        [] \<Rightarrow> (m\<lparr>acquired := (acquired m)(key := False)\<rparr>, None)
      | t # ts \<Rightarrow> (m\<lparr>waiting := (waiting m)(key := ts)\<rparr>, Some t))"

subsection \<open>put\<close>

text \<open>
  Where a call of \<open>put\<close> is: suspended at line 51 for the lock, at line 54 for
  \<open>accountsDB.put\<close>, at line 55 for \<open>indexer.updateIndexes\<close>, returned, or thrown. Lines 52
  to 58, between the grant of the lock and \<open>release()\<close>, are the critical section.
\<close>

datatype put_stage = AwaitLock | AwaitPut | AwaitIndex | PutReturned | PutThrew error

record put_call =
  recordId :: string
  stage :: put_stage

record users_state =
  locks :: mutex
  puts :: "put_call list"
  emitted :: "string list"

definition usersInit :: users_state where
  "usersInit = \<lparr>locks = \<lparr>acquired = (\<lambda>key. False), waiting = (\<lambda>key. [])\<rparr>,
     puts = [], emitted = []\<rparr>"

definition lockKey :: "string \<Rightarrow> string" where
  "lockKey rid = ''users:write:'' @ rid"

definition critical :: "put_call \<Rightarrow> bool" where
  "critical c = (stage c = AwaitPut \<or> stage c = AwaitIndex)"

text \<open>Lines 50 and 51: the call asks for the lock of its record; granted, it goes on to line 54.\<close>

definition put :: "string \<Rightarrow> users_state \<Rightarrow> users_state" where
  "put rid s =
     (case acquire (lockKey rid) (length (puts s)) (locks s) of
        (m, granted) \<Rightarrow>
          s\<lparr>locks := m,
            puts := puts s @ [\<lparr>recordId = rid, stage = (if granted then AwaitPut else AwaitLock)\<rparr>]\<rparr>)"

text \<open>Line 57, \<open>release()\<close>: the caller that is handed the lock resumes and goes on to line 54.\<close>

definition finallyRelease :: "string \<Rightarrow> users_state \<Rightarrow> users_state" where
  "finallyRelease rid s =
     (case release (lockKey rid) (locks s) of
        (m, None) \<Rightarrow> s\<lparr>locks := m\<rparr>
      | (m, Some t) \<Rightarrow> s\<lparr>locks := m, puts := (puts s)[t := (puts s ! t)\<lparr>stage := AwaitPut\<rparr>]\<rparr>)"

text \<open>The promise of \<open>accountsDB.put\<close> awaited by call \<open>t\<close> settles (line 54).\<close>

definition putSettled :: "nat \<Rightarrow> error option \<Rightarrow> users_state \<Rightarrow> users_state" where
  "putSettled t r s =
     (if t < length (puts s) \<and> stage (puts s ! t) = AwaitPut then
        (let c = puts s ! t in
         case r of
           None \<Rightarrow> s\<lparr>puts := (puts s)[t := c\<lparr>stage := AwaitIndex\<rparr>]\<rparr>
         | Some e \<Rightarrow> finallyRelease (recordId c) (s\<lparr>puts := (puts s)[t := c\<lparr>stage := PutThrew e\<rparr>]\<rparr>))
      else s)"

text \<open>The promise of \<open>indexer.updateIndexes\<close> settles (line 55); line 59 emits \<open>put\<close>.\<close>

definition indexSettled :: "nat \<Rightarrow> error option \<Rightarrow> users_state \<Rightarrow> users_state" where
  "indexSettled t r s =
     (if t < length (puts s) \<and> stage (puts s ! t) = AwaitIndex then
        (let c = puts s ! t in
         case r of
           None \<Rightarrow> (finallyRelease (recordId c)
                      (s\<lparr>puts := (puts s)[t := c\<lparr>stage := PutReturned\<rparr>]\<rparr>))
                    \<lparr>emitted := emitted s @ [recordId c]\<rparr>
         | Some e \<Rightarrow> finallyRelease (recordId c) (s\<lparr>puts := (puts s)[t := c\<lparr>stage := PutThrew e\<rparr>]\<rparr>))
      else s)"

datatype users_event =
    Put string
  | PutSettled nat "error option"
  | IndexSettled nat "error option"

fun usersStep :: "users_state \<Rightarrow> users_event \<Rightarrow> users_state" where
  "usersStep s (Put rid) = put rid s"
| "usersStep s (PutSettled t r) = putSettled t r s"
| "usersStep s (IndexSettled t r) = indexSettled t r s"

definition usersRun :: "users_state \<Rightarrow> users_event list \<Rightarrow> users_state" where
  "usersRun s evs = foldl usersStep s evs"

text \<open>
  Three calls of \<open>put\<close> for record \<open>u1\<close> and one for \<open>u2\<close>; the first call has got as far
  as line 55.
\<close>

definition contendedEvents :: "users_event list" where
  "contendedEvents = [Put ''u1'', Put ''u1'', Put ''u1'', Put ''u2'', PutSettled 0 None]"

section \<open>Invariants\<close>

text \<open>
  \<open>onlyDestroyed ss ss'\<close>: the streams \<open>ss'\<close> are the streams \<open>ss\<close> after some calls of
  \<open>destroy()\<close>. \<open>closeFrame s s'\<close>: what the synchronous part of \<open>closeArchive\<close> leaves as
  it is.
\<close>

definition onlyDestroyed :: "stream list \<Rightarrow> stream list \<Rightarrow> bool" where
  "onlyDestroyed ss ss' =
     (length ss' = length ss \<and>
      (\<forall>j<length ss. \<exists>n. ss' ! j = (ss ! j)\<lparr>destroyCalls := destroyCalls (ss ! j) @ replicate n None\<rparr>))"

definition closeFrame :: "state \<Rightarrow> state \<Rightarrow> bool" where
  "closeFrame s s' =
     (archives s' = archives s \<and> loadPromises s' = loadPromises s \<and> inners s' = inners s \<and>
      loads s' = loads s \<and> log s' = log s \<and> now s' = now s \<and>
      onlyDestroyed (streams s) (streams s') \<and>
      map replicationStreams (objs s') = map replicationStreams (objs s) \<and>
      map akey (objs s') = map akey (objs s) \<and>
      (\<exists>cs. closes s' = closes s @ cs))"

text \<open>
  The stream collections: a collection has no duplicates and holds streams of its own
  archive only; a stream is in the collection of its archive exactly when its \<open>close\<close>
  event has not been emitted, which is when its \<open>once('close')\<close> listener is registered; a
  timer that is set has its \<open>once('handshake')\<close> listener registered.
\<close>

definition streamsInv :: "state \<Rightarrow> bool" where
  "streamsInv s =
     ((\<forall>a<length (objs s).
         distinct (replicationStreams (objs s ! a)) \<and>
         (\<forall>sid\<in>set (replicationStreams (objs s ! a)).
            sid < length (streams s) \<and> owner (streams s ! sid) = a)) \<and>
      (\<forall>sid<length (streams s).
         owner (streams s ! sid) < length (objs s) \<and>
         (sid \<in> set (replicationStreams (objs s ! owner (streams s ! sid)))
            \<longleftrightarrow> \<not> closed (streams s ! sid)) \<and>
         (onceClose (streams s ! sid) \<longleftrightarrow> \<not> closed (streams s ! sid)) \<and>
         (\<forall>due. TO (streams s ! sid) = Armed due \<longrightarrow> onceHandshake (streams s ! sid))))"

text \<open>The calls of \<open>destroy\<close> made by the timer callback (line 126).\<close>

definition timeoutCalls :: "stream \<Rightarrow> error option list" where
  "timeoutCalls st = filter (\<lambda>c. c = Some timeoutError) (destroyCalls st)"




text \<open>
  The lock and the calls, seen per record: \<open>acq r\<close>, the lock of record \<open>r\<close> is held;
  \<open>q r\<close>, the callers suspended on it; \<open>crit t\<close>, call \<open>t\<close> is in its critical section;
  \<open>waits t\<close>, call \<open>t\<close> is suspended at line 51; \<open>rid t\<close>, its record; \<open>n\<close>, the number of
  calls so far; \<open>h\<close>, the record whose holder has left the critical section and is about
  to call \<open>release\<close>. The lock is held exactly when a call is in the critical section or
  about to release; at most one call per record is in its critical section; the queue of
  a record holds exactly the calls suspended on it, in the order of their arrival; a
  queue is empty when the lock is free; and a call that arrived after a suspended call
  for the same record is suspended too.
\<close>

definition lockInv :: "string option \<Rightarrow> nat \<Rightarrow> (string \<Rightarrow> bool) \<Rightarrow> (string \<Rightarrow> nat list)
    \<Rightarrow> (nat \<Rightarrow> bool) \<Rightarrow> (nat \<Rightarrow> bool) \<Rightarrow> (nat \<Rightarrow> string) \<Rightarrow> bool" where
  "lockInv h n acq q crit waits rid =
     ((\<forall>r. acq r = (h = Some r \<or> (\<exists>t. crit t \<and> rid t = r))) \<and>
      (\<forall>t. crit t \<longrightarrow> h \<noteq> Some (rid t)) \<and>
      (\<forall>t1 t2. crit t1 \<and> crit t2 \<and> rid t1 = rid t2 \<longrightarrow> t1 = t2) \<and>
      (\<forall>t. crit t \<or> waits t \<longrightarrow> t < n) \<and>
      (\<forall>t. \<not> (crit t \<and> waits t)) \<and>
      (\<forall>r. sorted_wrt (<) (q r) \<and> set (q r) = {t. waits t \<and> rid t = r}) \<and>
      (\<forall>r. q r \<noteq> [] \<longrightarrow> acq r) \<and>
      (\<forall>t1 t2. t1 < t2 \<and> t2 < n \<and> rid t1 = rid t2 \<and> waits t1 \<longrightarrow> waits t2))"

text \<open>The same on a state of \<open>UsersDB\<close>.\<close>

definition critV :: "users_state \<Rightarrow> nat \<Rightarrow> bool" where
  "critV s t = (t < length (puts s) \<and> critical (puts s ! t))"

definition waitsV :: "users_state \<Rightarrow> nat \<Rightarrow> bool" where
  "waitsV s t = (t < length (puts s) \<and> stage (puts s ! t) = AwaitLock)"

definition ridV :: "users_state \<Rightarrow> nat \<Rightarrow> string" where
  "ridV s t = (if t < length (puts s) then recordId (puts s ! t) else [])"

definition usersInv :: "string option \<Rightarrow> users_state \<Rightarrow> bool" where
  "usersInv h s =
     lockInv h (length (puts s)) (\<lambda>r. acquired (locks s) (lockKey r))
       (\<lambda>r. waiting (locks s) (lockKey r)) (critV s) (waitsV s) (ridV s)"

section \<open>Properties of the archiver\<close>

subsection \<open>Frame and invariant lemmas\<close>

lemma onlyDestroyed_refl: "onlyDestroyed ss ss"
  unfolding onlyDestroyed_def
proof (intro conjI allI impI)
  fix j assume "j < length ss"
  have "ss ! j = (ss ! j)\<lparr>destroyCalls := destroyCalls (ss ! j) @ replicate 0 None\<rparr>" by simp
  then show "\<exists>n. ss ! j = (ss ! j)\<lparr>destroyCalls := destroyCalls (ss ! j) @ replicate n None\<rparr>" by blast
qed simp

lemma onlyDestroyed_trans:
  assumes "onlyDestroyed a b" and "onlyDestroyed b c"
  shows "onlyDestroyed a c"
  unfolding onlyDestroyed_def
proof (intro conjI allI impI)
  show "length c = length a" using assms by (simp add: onlyDestroyed_def)
next
  fix j assume j: "j < length a"
  from assms(1) j obtain n where n: "b ! j = (a ! j)\<lparr>destroyCalls := destroyCalls (a ! j) @ replicate n None\<rparr>"
    by (auto simp: onlyDestroyed_def)
  from assms j obtain m where m: "c ! j = (b ! j)\<lparr>destroyCalls := destroyCalls (b ! j) @ replicate m None\<rparr>"
    by (auto simp: onlyDestroyed_def)
  have "c ! j = (a ! j)\<lparr>destroyCalls := destroyCalls (a ! j) @ replicate (n + m) None\<rparr>"
    by (simp add: m n replicate_add)
  then show "\<exists>n. c ! j = (a ! j)\<lparr>destroyCalls := destroyCalls (a ! j) @ replicate n None\<rparr>" by blast
qed

lemma onlyDestroyed_update:
  "onlyDestroyed ss (ss[i := (ss ! i)\<lparr>destroyCalls := destroyCalls (ss ! i) @ [None]\<rparr>])"
  unfolding onlyDestroyed_def
proof (intro conjI allI impI)
  fix j assume j: "j < length ss"
  show "\<exists>n. ss[i := (ss ! i)\<lparr>destroyCalls := destroyCalls (ss ! i) @ [None]\<rparr>] ! j
          = (ss ! j)\<lparr>destroyCalls := destroyCalls (ss ! j) @ replicate n None\<rparr>"
  proof (cases "i = j")
    case True
    with j have "ss[i := (ss ! i)\<lparr>destroyCalls := destroyCalls (ss ! i) @ [None]\<rparr>] ! j
          = (ss ! j)\<lparr>destroyCalls := destroyCalls (ss ! j) @ replicate 1 None\<rparr>" by simp
    then show ?thesis by blast
  next
    case False
    then have "ss[i := (ss ! i)\<lparr>destroyCalls := destroyCalls (ss ! i) @ [None]\<rparr>] ! j
          = (ss ! j)\<lparr>destroyCalls := destroyCalls (ss ! j) @ replicate 0 None\<rparr>" by simp
    then show ?thesis by blast
  qed
qed simp

lemma destroyAll_onlyDestroyed: "onlyDestroyed ss (fst (destroyAll is ss))"
proof (induction "is" arbitrary: ss)
  case Nil
  show ?case by (simp add: onlyDestroyed_refl)
next
  case (Cons i "is")
  let ?ss' = "ss[i := (ss ! i)\<lparr>destroyCalls := destroyCalls (ss ! i) @ [None]\<rparr>]"
  have a: "onlyDestroyed ss ?ss'" by (rule onlyDestroyed_update)
  show ?case
  proof (cases "destroyThrows (ss ! i)")
    case None
    then have "fst (destroyAll (i # is) ss) = fst (destroyAll is ?ss')" by (simp add: Let_def)
    with a Cons.IH[of ?ss'] show ?thesis by (metis onlyDestroyed_trans)
  next
    case (Some e)
    then have "fst (destroyAll (i # is) ss) = ?ss'" by (simp add: Let_def)
    with a show ?thesis by simp
  qed
qed

lemma closeFrame_refl: "closeFrame s s"
  by (simp add: closeFrame_def onlyDestroyed_refl)

lemma closeFrame_trans: "closeFrame a b \<Longrightarrow> closeFrame b c \<Longrightarrow> closeFrame a c"
  unfolding closeFrame_def by (auto intro: onlyDestroyed_trans)

lemma map_update_same: "(map f xs)[i := f (xs ! i)] = map f xs"
  by (cases "i < length xs") (simp_all add: list_update_same_conv list_update_beyond)

lemma closeArchive_enter_closeFrame: "closeFrame s (fst (closeArchive_enter E key0 s))"
proof (cases "toStr E key0")
  case (Inl e)
  then show ?thesis by (simp add: closeArchive_enter_def closeFrame_refl)
next
  case (Inr key)
  show ?thesis
  proof (cases "map_of (archives s) key")
    case None
    with Inr show ?thesis by (simp add: closeArchive_enter_def closeFrame_refl)
  next
    case (Some a)
    obtain ss r where d: "destroyAll (replicationStreams (objs s ! a)) (streams s) = (ss, r)"
      by (cases "destroyAll (replicationStreams (objs s ! a)) (streams s)")
    have od: "onlyDestroyed (streams s) ss"
      using destroyAll_onlyDestroyed[of "streams s" "replicationStreams (objs s ! a)"] d by simp
    show ?thesis
      using Inr Some d od
      by (cases r) (simp_all add: closeArchive_enter_def closeFrame_def map_update map_update_same)
  qed
qed

lemma closeArchive_closeFrame: "closeFrame s (closeArchive E key0 s)"
  using closeArchive_enter_closeFrame[of s E key0]
  by (cases "closeArchive_enter E key0 s") (auto simp add: closeArchive_def closeFrame_def)

lemma closeArchive_closes:
  "closes (closeArchive E key0 s) = closes s @ [snd (closeArchive_enter E key0 s)]"
  by (auto simp: closeArchive_def closeArchive_enter_def split: sum.splits option.splits prod.splits)

lemma fold_closeArchive_closeFrame:
  "closeFrame s (fold (\<lambda>key. closeArchive E (KStr key)) ks s)"
proof (induction ks arbitrary: s)
  case Nil show ?case by (simp add: closeFrame_refl)
next
  case (Cons k ks)
  show ?case using closeArchive_closeFrame[of s E "KStr k"] Cons.IH[of "closeArchive E (KStr k) s"]
    by (simp) (metis closeFrame_trans)
qed

lemma fold_closeArchive_length:
  "length (closes (fold (\<lambda>key. closeArchive E (KStr key)) ks s)) = length (closes s) + length ks"
  by (induction ks arbitrary: s) (simp_all add: closeArchive_closes)

lemma closeAllArchives_closeFrame: "closeFrame s (closeAllArchives E s)"
  using fold_closeArchive_closeFrame[of s E "map fst (archives s)"]
  by (simp add: closeAllArchives_def Let_def closeFrame_def)

lemma closeArchive_not_resident:
  assumes "toStr E key0 = Inr key" and "map_of (archives s) key = None"
  shows "closeArchive E key0 s = s\<lparr>closes := closes s @ [CloseReturned]\<rparr>"
  using assms by (simp add: closeArchive_def closeArchive_enter_def)

lemma closeFrame_objs:
  assumes "closeFrame s s'"
  shows "length (objs s') = length (objs s)"
    and "a < length (objs s) \<Longrightarrow> replicationStreams (objs s' ! a) = replicationStreams (objs s ! a)"
    and "a < length (objs s) \<Longrightarrow> akey (objs s' ! a) = akey (objs s ! a)"
proof -
  from assms have m: "map replicationStreams (objs s') = map replicationStreams (objs s)"
    and k: "map akey (objs s') = map akey (objs s)" by (simp_all add: closeFrame_def)
  from m show l: "length (objs s') = length (objs s)" by (rule map_eq_imp_length_eq)
  { assume a: "a < length (objs s)"
    from m have "map replicationStreams (objs s') ! a = map replicationStreams (objs s) ! a" by simp
    with a l show "replicationStreams (objs s' ! a) = replicationStreams (objs s ! a)" by simp }
  { assume a: "a < length (objs s)"
    from k have "map akey (objs s') ! a = map akey (objs s) ! a" by simp
    with a l show "akey (objs s' ! a) = akey (objs s ! a)" by simp }
qed

lemma closeFrame_streams:
  assumes "closeFrame s s'"
  shows "length (streams s') = length (streams s)"
    and "j < length (streams s) \<Longrightarrow> \<exists>n. streams s' ! j =
           (streams s ! j)\<lparr>destroyCalls := destroyCalls (streams s ! j) @ replicate n None\<rparr>"
  using assms by (simp_all add: closeFrame_def onlyDestroyed_def)

lemma streamsInv_closeFrame:
  assumes inv: "streamsInv s" and fr: "closeFrame s s'"
  shows "streamsInv s'"
proof -
  note o = closeFrame_objs[OF fr] and l = closeFrame_streams(1)[OF fr]
  have st: "owner (streams s' ! j) = owner (streams s ! j) \<and> closed (streams s' ! j) = closed (streams s ! j)
      \<and> onceClose (streams s' ! j) = onceClose (streams s ! j) \<and> TO (streams s' ! j) = TO (streams s ! j)
      \<and> onceHandshake (streams s' ! j) = onceHandshake (streams s ! j)" if "j < length (streams s)" for j
    using closeFrame_streams(2)[OF fr that] by auto
  show ?thesis
    unfolding streamsInv_def
  proof (intro conjI allI impI)
    fix a assume a: "a < length (objs s')"
    then show "distinct (replicationStreams (objs s' ! a))"
      using inv o by (simp add: streamsInv_def)
    show "\<forall>sid\<in>set (replicationStreams (objs s' ! a)).
            sid < length (streams s') \<and> owner (streams s' ! sid) = a"
      using inv o l st a by (simp add: streamsInv_def)
  next
    fix sid assume sid: "sid < length (streams s')"
    then have sid': "sid < length (streams s)" using l by simp
    from inv sid' have ow: "owner (streams s ! sid) < length (objs s)" by (simp add: streamsInv_def)
    show "owner (streams s' ! sid) < length (objs s')"
      using ow o st[OF sid'] by simp
    show "(sid \<in> set (replicationStreams (objs s' ! owner (streams s' ! sid)))) = (\<not> closed (streams s' ! sid))"
      using inv ow o st[OF sid'] sid' by (simp add: streamsInv_def)
    show "onceClose (streams s' ! sid) = (\<not> closed (streams s' ! sid))"
      using inv st[OF sid'] sid' by (simp add: streamsInv_def)
    fix due assume "TO (streams s' ! sid) = Armed due"
    then show "onceHandshake (streams s' ! sid)"
      using inv st[OF sid'] sid' by (simp add: streamsInv_def)
  qed
qed

lemma streamsInv_init: "streamsInv init"
  by (simp add: streamsInv_def init_def)

lemma streamsInv_cong: "objs s' = objs s \<Longrightarrow> streams s' = streams s \<Longrightarrow> streamsInv s' = streamsInv s"
  by (simp add: streamsInv_def)

lemma streamsInv_mkdirpSettled: "streamsInv s \<Longrightarrow> streamsInv (mkdirpSettled c r s)"
  unfolding streamsInv_def mkdirpSettled_def loadArchiveInner_start_def
  by (auto simp: Let_def nth_append less_Suc_eq split: load_call.splits option.splits)

lemma streamsInv_readyCallback: "streamsInv s \<Longrightarrow> streamsInv (readyCallback p r s)"
proof -
  assume inv: "streamsInv s"
  have l: "length (objs (readyCallback p r s)) = length (objs s)"
    by (simp add: readyCallback_def Let_def split: option.splits)
  have r: "replicationStreams (objs (readyCallback p r s) ! a) = replicationStreams (objs s ! a)" for a
    by (cases "a = iarchive (inners s ! p)"; cases "a < length (objs s)")
       (simp_all add: readyCallback_def Let_def list_update_beyond split: option.splits)
  have st: "streams (readyCallback p r s) = streams s"
    by (simp add: readyCallback_def Let_def split: option.splits)
  show ?thesis using inv by (simp add: streamsInv_def l r st)
qed

lemma streamsInv_connection: "streamsInv s \<Longrightarrow> streamsInv (connection a thr s)"
proof (cases "a < length (objs s) \<and> swarm (objs s ! a) = Some Joined")
  case False
  assume "streamsInv s"
  moreover from False have "connection a thr s = s" by (auto simp: connection_def)
  ultimately show ?thesis by simp
next
  case True
  assume inv: "streamsInv s"
  let ?n = "length (streams s)"
  let ?s' = "connection a thr s"
  have l: "length (objs ?s') = length (objs s)" using True by (simp add: connection_def)
  have ls: "length (streams ?s') = Suc ?n" using True by (simp add: connection_def)
  have ra: "replicationStreams (objs ?s' ! a) = replicationStreams (objs s ! a) @ [?n]"
    using True by (simp add: connection_def)
  have rb: "b \<noteq> a \<Longrightarrow> replicationStreams (objs ?s' ! b) = replicationStreams (objs s ! b)" for b
    using True by (simp add: connection_def)
  have so: "j < ?n \<Longrightarrow> streams ?s' ! j = streams s ! j" for j
    using True by (simp add: connection_def nth_append)
  have sn: "streams ?s' ! ?n = \<lparr>owner = a, onceClose = True, onceHandshake = True,
              TO = Armed (now s + handshakeTimeout), destroyCalls = [], closed = False,
              destroyThrows = thr\<rparr>"
    using True by (simp add: connection_def)
  have old: "\<forall>sid\<in>set (replicationStreams (objs s ! b)). sid < ?n \<and> owner (streams s ! sid) = b"
    if "b < length (objs s)" for b using inv that by (simp add: streamsInv_def)
  show ?thesis
    unfolding streamsInv_def
  proof (intro conjI allI impI)
    fix b assume b: "b < length (objs ?s')"
    then have b': "b < length (objs s)" using l by simp
    show "distinct (replicationStreams (objs ?s' ! b))"
    proof (cases "b = a")
      case True
      then show ?thesis using inv b' old[OF b'] by (auto simp: ra streamsInv_def)
    next
      case False
      then show ?thesis using inv b' by (simp add: rb streamsInv_def)
    qed
    show "\<forall>sid\<in>set (replicationStreams (objs ?s' ! b)).
            sid < length (streams ?s') \<and> owner (streams ?s' ! sid) = b"
    proof (cases "b = a")
      case True
      then show ?thesis using old[OF b'] by (auto simp: ra ls so sn)
    next
      case False
      then show ?thesis using old[OF b'] by (auto simp: rb ls so)
    qed
  next
    fix sid assume "sid < length (streams ?s')"
    then consider "sid < ?n" | "sid = ?n" using ls by linarith
    then show "owner (streams ?s' ! sid) < length (objs ?s')"
      using inv True by cases (simp_all add: so sn l streamsInv_def)
  next
    fix sid assume "sid < length (streams ?s')"
    then consider "sid < ?n" | "sid = ?n" using ls by linarith
    then show "(sid \<in> set (replicationStreams (objs ?s' ! owner (streams ?s' ! sid))))
                 = (\<not> closed (streams ?s' ! sid))"
    proof cases
      case 1
      then have ow: "owner (streams s ! sid) < length (objs s)" using inv by (simp add: streamsInv_def)
      show ?thesis
      proof (cases "owner (streams s ! sid) = a")
        case True
        then show ?thesis using inv 1 by (auto simp: so ra streamsInv_def)
      next
        case False
        then show ?thesis using inv 1 by (simp add: so rb streamsInv_def)
      qed
    next
      case 2
      then show ?thesis by (simp add: sn ra)
    qed
  next
    fix sid assume "sid < length (streams ?s')"
    then consider "sid < ?n" | "sid = ?n" using ls by linarith
    then show "onceClose (streams ?s' ! sid) = (\<not> closed (streams ?s' ! sid))"
      using inv by cases (simp_all add: so sn streamsInv_def)
  next
    fix sid due assume "sid < length (streams ?s')" and t: "TO (streams ?s' ! sid) = Armed due"
    then consider "sid < ?n" | "sid = ?n" using ls by linarith
    then show "onceHandshake (streams ?s' ! sid)"
      using inv t by cases (simp_all add: so sn streamsInv_def)
  qed
qed

lemma streamsInv_streamClose: "streamsInv s \<Longrightarrow> streamsInv (streamClose sid s)"
proof (cases "sid < length (streams s)")
  case False
  then show "streamsInv s \<Longrightarrow> ?thesis" by (simp add: streamClose_def)
next
  case True
  assume inv: "streamsInv s"
  let ?st = "streams s ! sid"
  let ?a = "owner ?st"
  let ?s' = "streamClose sid s"
  have a: "?a < length (objs s)" using inv True by (simp add: streamsInv_def)
  have l: "length (objs ?s') = length (objs s)" using True by (simp add: streamClose_def Let_def)
  have ls: "length (streams ?s') = length (streams s)" using True by (simp add: streamClose_def Let_def)
  have ra: "replicationStreams (objs ?s' ! ?a) =
      (if onceClose ?st then remove1 sid (replicationStreams (objs s ! ?a))
       else replicationStreams (objs s ! ?a))"
    using True a by (simp add: streamClose_def Let_def)
  have rb: "b \<noteq> ?a \<Longrightarrow> replicationStreams (objs ?s' ! b) = replicationStreams (objs s ! b)" for b
    using True by (simp add: streamClose_def Let_def)
  have so: "j \<noteq> sid \<Longrightarrow> streams ?s' ! j = streams s ! j" for j
    using True by (simp add: streamClose_def Let_def)
  have sn: "streams ?s' ! sid = ?st\<lparr>onceClose := False, closed := True\<rparr>"
    using True by (simp add: streamClose_def Let_def)
  have ow: "owner (streams ?s' ! j) = owner (streams s ! j)" for j
    by (cases "j = sid") (simp_all add: so sn)
  have old: "distinct (replicationStreams (objs s ! b)) \<and>
      (\<forall>x\<in>set (replicationStreams (objs s ! b)). x < length (streams s) \<and> owner (streams s ! x) = b)"
    if "b < length (objs s)" for b using inv that by (simp add: streamsInv_def)
  have olds: "owner (streams s ! j) < length (objs s) \<and>
         (j \<in> set (replicationStreams (objs s ! owner (streams s ! j))) \<longleftrightarrow> \<not> closed (streams s ! j)) \<and>
         (onceClose (streams s ! j) \<longleftrightarrow> \<not> closed (streams s ! j)) \<and>
         (\<forall>due. TO (streams s ! j) = Armed due \<longrightarrow> onceHandshake (streams s ! j))"
    if "j < length (streams s)" for j using inv that by (simp add: streamsInv_def)
  show ?thesis
    unfolding streamsInv_def
  proof (intro conjI allI impI)
    fix b assume "b < length (objs ?s')"
    then have b: "b < length (objs s)" using l by simp
    show "distinct (replicationStreams (objs ?s' ! b))"
      using old[OF b] by (cases "b = ?a") (simp_all add: ra rb)
    show "\<forall>x\<in>set (replicationStreams (objs ?s' ! b)).
            x < length (streams ?s') \<and> owner (streams ?s' ! x) = b"
    proof (cases "b = ?a")
      case True
      then show ?thesis using old[OF b] by (auto simp: ra ls ow)
    next
      case False
      then show ?thesis using old[OF b] by (simp add: rb ls ow)
    qed
  next
    fix j assume "j < length (streams ?s')"
    then have j: "j < length (streams s)" using ls by simp
    show "owner (streams ?s' ! j) < length (objs ?s')" using olds[OF j] by (simp add: ow l)
    show "(j \<in> set (replicationStreams (objs ?s' ! owner (streams ?s' ! j))))
            = (\<not> closed (streams ?s' ! j))"
    proof (cases "j = sid")
      case True
      moreover from old[OF a] have "distinct (replicationStreams (objs s ! ?a))" by blast
      ultimately show ?thesis using olds[OF j] by (simp add: ow ra sn)
    next
      case False
      show ?thesis
      proof (cases "owner (streams s ! j) = ?a")
        case True
        with False show ?thesis using olds[OF j] by (simp add: ow ra so)
      next
        case False
        then show ?thesis using olds[OF j] \<open>j \<noteq> sid\<close> by (simp add: ow rb so)
      qed
    qed
    show "onceClose (streams ?s' ! j) = (\<not> closed (streams ?s' ! j))"
      using olds[OF j] by (cases "j = sid") (simp_all add: so sn)
    fix due assume "TO (streams ?s' ! j) = Armed due"
    then show "onceHandshake (streams ?s' ! j)"
      using olds[OF j] by (cases "j = sid") (simp_all add: so sn)
  qed
qed

lemma streamsInv_TO:
  "streamsInv s \<Longrightarrow> j < length (streams s) \<Longrightarrow> TO (streams s ! j) = Armed due
     \<Longrightarrow> onceHandshake (streams s ! j)"
  unfolding streamsInv_def by blast

lemma streamsInv_fields:
  assumes inv: "streamsInv s"
    and o: "objs s' = objs s"
    and l: "length (streams s') = length (streams s)"
    and f: "\<And>j. j < length (streams s) \<Longrightarrow> owner (streams s' ! j) = owner (streams s ! j) \<and>
              closed (streams s' ! j) = closed (streams s ! j) \<and>
              onceClose (streams s' ! j) = onceClose (streams s ! j)"
    and g: "\<And>j due. j < length (streams s) \<Longrightarrow> TO (streams s' ! j) = Armed due
              \<Longrightarrow> onceHandshake (streams s' ! j)"
  shows "streamsInv s'"
  unfolding streamsInv_def
proof (intro conjI allI impI)
  fix a assume a: "a < length (objs s')"
  with inv o show "distinct (replicationStreams (objs s' ! a))" by (simp add: streamsInv_def)
  from inv o a have A: "\<forall>sid\<in>set (replicationStreams (objs s ! a)).
            sid < length (streams s) \<and> owner (streams s ! sid) = a" by (simp add: streamsInv_def)
  show "\<forall>sid\<in>set (replicationStreams (objs s' ! a)).
            sid < length (streams s') \<and> owner (streams s' ! sid) = a"
  proof
    fix sid assume "sid \<in> set (replicationStreams (objs s' ! a))"
    then have "sid \<in> set (replicationStreams (objs s ! a))" by (simp add: o)
    with A have 1: "sid < length (streams s)" and 2: "owner (streams s ! sid) = a" by blast+
    from f[OF 1] 2 have "owner (streams s' ! sid) = a" by simp
    with 1 show "sid < length (streams s') \<and> owner (streams s' ! sid) = a" by (simp add: l)
  qed
next
  fix j assume "j < length (streams s')"
  then have j: "j < length (streams s)" by (simp add: l)
  from inv j have x: "owner (streams s ! j) < length (objs s) \<and>
         (j \<in> set (replicationStreams (objs s ! owner (streams s ! j))) \<longleftrightarrow> \<not> closed (streams s ! j)) \<and>
         (onceClose (streams s ! j) \<longleftrightarrow> \<not> closed (streams s ! j))"
    by (simp add: streamsInv_def)
  from x f[OF j] show "owner (streams s' ! j) < length (objs s')" by (simp add: o)
  from x f[OF j] show "(j \<in> set (replicationStreams (objs s' ! owner (streams s' ! j))))
            = (\<not> closed (streams s' ! j))" by (simp add: o)
  from x f[OF j] show "onceClose (streams s' ! j) = (\<not> closed (streams s' ! j))" by simp
  fix due assume "TO (streams s' ! j) = Armed due"
  then show "onceHandshake (streams s' ! j)" using g[OF j] by simp
qed

lemma streamsInv_streamHandshake: "streamsInv s \<Longrightarrow> streamsInv (streamHandshake sid s)"
proof (rule streamsInv_fields)
  fix j assume "j < length (streams s)"
  then show "owner (streams (streamHandshake sid s) ! j) = owner (streams s ! j) \<and>
              closed (streams (streamHandshake sid s) ! j) = closed (streams s ! j) \<and>
              onceClose (streams (streamHandshake sid s) ! j) = onceClose (streams s ! j)"
    by (cases "j = sid") (simp_all add: streamHandshake_def Let_def)
next
  fix j due assume "streamsInv s" and j: "j < length (streams s)"
    and t: "TO (streams (streamHandshake sid s) ! j) = Armed due"
  show "onceHandshake (streams (streamHandshake sid s) ! j)"
  proof (cases "j = sid \<and> onceHandshake (streams s ! sid)")
    case True
    with j t show ?thesis by (simp add: streamHandshake_def Let_def split: timer.splits)
  next
    case False
    with j have e: "streams (streamHandshake sid s) ! j = streams s ! j"
      by (auto simp: streamHandshake_def Let_def)
    with t \<open>streamsInv s\<close> j show ?thesis by (simp add: streamsInv_TO)
  qed
qed (simp_all add: streamHandshake_def Let_def)

lemma streamsInv_timerFire: "streamsInv s \<Longrightarrow> streamsInv (timerFire sid s)"
proof (rule streamsInv_fields)
  fix j assume "j < length (streams s)"
  then show "owner (streams (timerFire sid s) ! j) = owner (streams s ! j) \<and>
              closed (streams (timerFire sid s) ! j) = closed (streams s ! j) \<and>
              onceClose (streams (timerFire sid s) ! j) = onceClose (streams s ! j)"
    by (cases "j = sid") (simp_all add: timerFire_def Let_def split: timer.splits)
next
  fix j due assume inv: "streamsInv s" and j: "j < length (streams s)"
    and t: "TO (streams (timerFire sid s) ! j) = Armed due"
  show "onceHandshake (streams (timerFire sid s) ! j)"
  proof (cases "j = sid")
    case True
    with j t inv show ?thesis
      by (auto simp: timerFire_def Let_def streamsInv_TO split: timer.splits if_splits)
  next
    case False
    with j have e: "streams (timerFire sid s) ! j = streams s ! j"
      by (auto simp: timerFire_def Let_def split: timer.splits)
    with t inv j show ?thesis by (simp add: streamsInv_TO)
  qed
qed (simp_all add: timerFire_def Let_def split: timer.splits)

lemma streamsInv_step: "streamsInv s \<Longrightarrow> streamsInv (step E s ev)"
proof (cases ev)
  case (LoadArchive k)
  then show "streamsInv s \<Longrightarrow> ?thesis"
    using streamsInv_cong[of "loadArchive E k s" s] by (simp add: loadArchive_def)
next
  case (MkdirpSettled c r)
  then show "streamsInv s \<Longrightarrow> ?thesis" using streamsInv_mkdirpSettled[of s c r] by simp
next
  case (ReadyCallback p r)
  then show "streamsInv s \<Longrightarrow> ?thesis" using streamsInv_readyCallback[of s p r] by simp
next
  case (CloseArchive k)
  then show "streamsInv s \<Longrightarrow> ?thesis"
    using streamsInv_closeFrame[OF _ closeArchive_closeFrame, of s E k] by simp
next
  case (CloseCallback c r)
  have "objs (closeCallback c r s) = objs s" "streams (closeCallback c r s) = streams s"
    by (simp_all add: closeCallback_def split: close_call.splits)
  with CloseCallback show "streamsInv s \<Longrightarrow> ?thesis"
    using streamsInv_cong[of "closeCallback c r s" s] by simp
next
  case CloseAllArchives
  then show "streamsInv s \<Longrightarrow> ?thesis"
    using streamsInv_closeFrame[OF _ closeAllArchives_closeFrame, of s E] by simp
next
  case (Connection a thr)
  then show "streamsInv s \<Longrightarrow> ?thesis" using streamsInv_connection[of s a thr] by simp
next
  case (StreamClose sid)
  then show "streamsInv s \<Longrightarrow> ?thesis" using streamsInv_streamClose[of s sid] by simp
next
  case (StreamHandshake sid)
  then show "streamsInv s \<Longrightarrow> ?thesis" using streamsInv_streamHandshake[of s sid] by simp
next
  case (StreamError sid e)
  then show "streamsInv s \<Longrightarrow> ?thesis"
    using streamsInv_cong[of "streamError sid e s" s] by (simp add: streamError_def)
next
  case (SwarmError a e)
  then show "streamsInv s \<Longrightarrow> ?thesis"
    using streamsInv_cong[of "swarmError a e s" s] by (simp add: swarmError_def)
next
  case (TimerFire sid)
  then show "streamsInv s \<Longrightarrow> ?thesis" using streamsInv_timerFire[of s sid] by simp
next
  case (Tick d)
  then show "streamsInv s \<Longrightarrow> ?thesis"
    using streamsInv_cong[of "s\<lparr>now := now s + d\<rparr>" s] by simp
qed

lemma streamsInv_run: "streamsInv s \<Longrightarrow> streamsInv (run E s evs)"
  unfolding run_def
  by (induction evs arbitrary: s) (simp_all add: streamsInv_step)

lemma streamsInv_member:
  assumes "streamsInv s" and "sid < length (streams s)" and "a < length (objs s)"
  shows "(sid \<in> set (replicationStreams (objs s ! a)))
           = (owner (streams s ! sid) = a \<and> \<not> closed (streams s ! sid))"
proof
  assume m: "sid \<in> set (replicationStreams (objs s ! a))"
  with assms(1,3) have o: "owner (streams s ! sid) = a" unfolding streamsInv_def by blast
  with assms(1,2) m have "\<not> closed (streams s ! sid)" unfolding streamsInv_def by blast
  with o show "owner (streams s ! sid) = a \<and> \<not> closed (streams s ! sid)" by simp
next
  assume "owner (streams s ! sid) = a \<and> \<not> closed (streams s ! sid)"
  with assms(1,2) show "sid \<in> set (replicationStreams (objs s ! a))"
    unfolding streamsInv_def by blast
qed

lemma streamClose_removed:
  assumes inv: "streamsInv s" and sid: "sid < length (streams s)" and a: "a < length (objs s)"
  shows "sid \<notin> set (replicationStreams (objs (streamClose sid s) ! a))"
proof -
  have i: "streamsInv (streamClose sid s)" using inv by (rule streamsInv_streamClose)
  have l: "sid < length (streams (streamClose sid s))" "a < length (objs (streamClose sid s))"
    using sid a by (simp_all add: streamClose_def Let_def)
  have "closed (streams (streamClose sid s) ! sid)" using sid by (simp add: streamClose_def Let_def)
  then show ?thesis using streamsInv_member[OF i l] by simp
qed

lemma timeoutCalls_destroyed:
  "timeoutCalls (st\<lparr>destroyCalls := destroyCalls st @ replicate n None\<rparr>) = timeoutCalls st"
  by (simp add: timeoutCalls_def timeoutError_def)

lemma cleared_closeFrame:
  assumes fr: "closeFrame s s'" and sid: "sid < length (streams s)"
  shows "sid < length (streams s') \<and> TO (streams s' ! sid) = TO (streams s ! sid)
     \<and> timeoutCalls (streams s' ! sid) = timeoutCalls (streams s ! sid)"
proof -
  from closeFrame_streams(2)[OF fr sid] obtain n where
    n: "streams s' ! sid = (streams s ! sid)\<lparr>destroyCalls := destroyCalls (streams s ! sid) @ replicate n None\<rparr>"
    by blast
  show ?thesis using closeFrame_streams(1)[OF fr] sid
    by (simp add: n timeoutCalls_destroyed)
qed

lemma cleared_step:
  assumes sid: "sid < length (streams s)" and c: "TO (streams s ! sid) = Cleared"
  shows "sid < length (streams (step E s ev)) \<and> TO (streams (step E s ev) ! sid) = Cleared
     \<and> timeoutCalls (streams (step E s ev) ! sid) = timeoutCalls (streams s ! sid)"
proof (cases ev)
  case (CloseArchive k)
  then show ?thesis using cleared_closeFrame[OF closeArchive_closeFrame sid, of E k] c by simp
next
  case CloseAllArchives
  then show ?thesis using cleared_closeFrame[OF closeAllArchives_closeFrame sid, of E] c by simp
next
  case (MkdirpSettled c' r)
  then show ?thesis using sid c
    by (simp add: mkdirpSettled_def loadArchiveInner_start_def Let_def
          split: load_call.splits option.splits)
next
  case (ReadyCallback p r)
  then show ?thesis using sid c by (simp add: readyCallback_def Let_def split: option.splits)
next
  case (CloseCallback c' r)
  then show ?thesis using sid c by (simp add: closeCallback_def split: close_call.splits)
next
  case (Connection a thr)
  then show ?thesis using sid c by (simp add: connection_def nth_append)
next
  case (StreamClose j)
  then show ?thesis using sid c
    by (cases "j = sid") (simp_all add: streamClose_def Let_def timeoutCalls_def)
next
  case (StreamHandshake j)
  then show ?thesis using sid c
    by (cases "j = sid") (simp_all add: streamHandshake_def Let_def timeoutCalls_def)
next
  case (TimerFire j)
  then show ?thesis using sid c
    by (cases "j = sid") (simp_all add: timerFire_def Let_def timeoutCalls_def split: timer.splits)
qed (simp_all add: sid c loadArchive_def streamError_def swarmError_def)

lemma cleared_run:
  "sid < length (streams s) \<Longrightarrow> TO (streams s ! sid) = Cleared \<Longrightarrow>
     sid < length (streams (run E s evs)) \<and> TO (streams (run E s evs) ! sid) = Cleared
     \<and> timeoutCalls (streams (run E s evs) ! sid) = timeoutCalls (streams s ! sid)"
proof (induction evs arbitrary: s)
  case Nil
  then show ?case by (simp add: run_def)
next
  case (Cons ev evs)
  from cleared_step[OF Cons.prems, of E ev]
  have a: "sid < length (streams (step E s ev))" and b: "TO (streams (step E s ev) ! sid) = Cleared"
    and c: "timeoutCalls (streams (step E s ev) ! sid) = timeoutCalls (streams s ! sid)" by blast+
  from Cons.IH[OF a b] c show ?case by (simp add: run_def)
qed



lemma destroyAll_throws: "map destroyThrows (fst (destroyAll is ss)) = map destroyThrows ss"
proof (induction "is" arbitrary: ss)
  case Nil
  show ?case by simp
next
  case (Cons i "is")
  let ?ss' = "ss[i := (ss ! i)\<lparr>destroyCalls := destroyCalls (ss ! i) @ [None]\<rparr>]"
  have u: "map destroyThrows ?ss' = map destroyThrows ss"
    by (simp add: map_update map_update_same)
  show ?case
  proof (cases "destroyThrows (ss ! i)")
    case None
    then have "fst (destroyAll (i # is) ss) = fst (destroyAll is ?ss')" by (simp add: Let_def)
    with Cons.IH[of ?ss'] u show ?thesis by simp
  next
    case (Some e)
    then have "fst (destroyAll (i # is) ss) = ?ss'" by (simp add: Let_def)
    with u show ?thesis by simp
  qed
qed










lemma promiseAll_Rejected_mem: "promiseAll rs = Rejected e \<Longrightarrow> Rejected e \<in> set rs"
  by (induction rs rule: promiseAll.induct) (auto split: promise.splits)
















lemma closeFrame_closes_nth:
  "closeFrame s s' \<Longrightarrow> c < length (closes s) \<Longrightarrow> closes s' ! c = closes s ! c"
  by (auto simp: closeFrame_def nth_append)

lemma step_closes_nth:
  assumes "c < length (closes t)" and "\<forall>r. ev \<noteq> CloseCallback c r"
  shows "closes (step E t ev) ! c = closes t ! c"
proof (cases ev)
  case (CloseArchive k)
  then show ?thesis using closeFrame_closes_nth[OF closeArchive_closeFrame assms(1)] by simp
next
  case CloseAllArchives
  then show ?thesis using closeFrame_closes_nth[OF closeAllArchives_closeFrame assms(1)] by simp
next
  case (CloseCallback c' r)
  with assms(2) have "c' \<noteq> c" by blast
  with CloseCallback show ?thesis by (simp add: closeCallback_def split: close_call.splits)
qed (simp_all add: loadArchive_def mkdirpSettled_def loadArchiveInner_start_def readyCallback_def
       connection_def streamClose_def streamHandshake_def streamError_def swarmError_def
       timerFire_def Let_def split: load_call.splits option.splits timer.splits)

subsection \<open>Deduplication of loads\<close>

text \<open>
  C1 (the code does not do this). Two calls \<open>loadArchive(keyA)\<close> back to back on an empty
  registry: both find neither an archive nor a load promise, both wait for \<open>mkdirp\<close>, and
  each then starts its own inner load. The storage of \<open>keyA\<close> is opened twice, the calls
  return two different promises, and these fulfil with two different archives.
\<close>

theorem loadArchive_twice_opens_twice:
  "loads (run sampleEnv init [LoadArchive (KStr keyA), LoadArchive (KStr keyA)])
     = [AwaitMkdirp keyA, AwaitMkdirp keyA]
   \<and> loads (run sampleEnv init [LoadArchive (KStr keyA), LoadArchive (KStr keyA),
        MkdirpSettled 0 None, MkdirpSettled 1 None])
     = [ReturnedPromise 0, ReturnedPromise 1]
   \<and> opens (run sampleEnv init [LoadArchive (KStr keyA), LoadArchive (KStr keyA),
        MkdirpSettled 0 None, MkdirpSettled 1 None]) keyA = 2
   \<and> loadResult (run sampleEnv init [LoadArchive (KStr keyA), LoadArchive (KStr keyA),
        MkdirpSettled 0 None, MkdirpSettled 1 None, ReadyCallback 0 None,
        ReadyCallback 1 None]) 0 = Fulfilled 0
   \<and> loadResult (run sampleEnv init [LoadArchive (KStr keyA), LoadArchive (KStr keyA),
        MkdirpSettled 0 None, MkdirpSettled 1 None, ReadyCallback 0 None,
        ReadyCallback 1 None]) 1 = Fulfilled 1"
  by code_simp

subsection \<open>Loading\<close>

text \<open>
  C4. The load of \<open>key\<close> whose inner promise is \<open>p\<close> fails: the \<open>ready\<close> callback is
  called with an error \<open>e\<close>. Then every call of \<open>loadArchive\<close> that returned \<open>p\<close> is
  rejected with \<open>e\<close>, and so is a call that joins the load just before it fails (it
  finds \<open>p\<close> in \<open>loadPromises\<close>). The entry of \<open>key\<close> in \<open>loadPromises\<close> is deleted,
  \<open>archives\<close> is not changed, so a key that was absent stays absent for \<open>getArchive\<close>,
  is not loading for \<open>isLoadingArchive\<close>, and a later \<open>loadArchive\<close> of it starts again
  at \<open>mkdirp\<close>.
\<close>

theorem load_failure_propagates:
  assumes p: "p < length (inners s)" and pend: "iresult (inners s ! p) = Pending"
    and key: "ikey (inners s ! p) = key"
  shows "(\<forall>c<length (loads s). loads s ! c = ReturnedPromise p \<longrightarrow>
            loadResult (readyCallback p (Some e) s) c = Rejected e)
       \<and> (toStr E key0 = Inr key \<and> map_of (archives s) key = None
            \<and> map_of (loadPromises s) key = Some p \<longrightarrow>
            loadResult (readyCallback p (Some e) (loadArchive E key0 s)) (length (loads s))
              = Rejected e)
       \<and> map_of (loadPromises (readyCallback p (Some e) s)) key = None
       \<and> archives (readyCallback p (Some e) s) = archives s
       \<and> (toStr E key0 = Inr key \<and> propKey E key0 = key \<and> getArchive E s key0 = None \<longrightarrow>
            getArchive E (readyCallback p (Some e) s) key0 = None
            \<and> \<not> isLoadingArchive E (readyCallback p (Some e) s) key0
            \<and> loadArchive_enter E (readyCallback p (Some e) s) key0 = AwaitMkdirp key)"
proof -
  have s': "readyCallback p (Some e) s =
      s\<lparr>inners := (inners s)[p := (inners s ! p)\<lparr>iresult := Rejected e\<rparr>],
        loadPromises := AList.delete key (loadPromises s)\<rparr>"
    using assms by (simp add: readyCallback_def Let_def)
  have s'': "readyCallback p (Some e) (loadArchive E key0 s) =
      (loadArchive E key0 s)\<lparr>inners := (inners s)[p := (inners s ! p)\<lparr>iresult := Rejected e\<rparr>],
        loadPromises := AList.delete key (loadPromises s)\<rparr>"
    using assms by (simp add: readyCallback_def Let_def loadArchive_def)
  have 1: "\<forall>c<length (loads s). loads s ! c = ReturnedPromise p \<longrightarrow>
            loadResult (readyCallback p (Some e) s) c = Rejected e"
    using p by (simp add: s' loadResult_def)
  have 2: "loadResult (readyCallback p (Some e) (loadArchive E key0 s)) (length (loads s)) = Rejected e"
    if "toStr E key0 = Inr key \<and> map_of (archives s) key = None \<and> map_of (loadPromises s) key = Some p"
  proof -
    from that have "loads (loadArchive E key0 s) = loads s @ [ReturnedPromise p]"
      by (simp add: loadArchive_def loadArchive_enter_def)
    then show ?thesis using p by (simp add: s'' loadResult_def)
  qed
  have 3: "map_of (loadPromises (readyCallback p (Some e) s)) key = None"
    by (simp add: s' AList.delete_conv')
  have 4: "archives (readyCallback p (Some e) s) = archives s" by (simp add: s')
  have 5: "getArchive E (readyCallback p (Some e) s) key0 = None
            \<and> \<not> isLoadingArchive E (readyCallback p (Some e) s) key0
            \<and> loadArchive_enter E (readyCallback p (Some e) s) key0 = AwaitMkdirp key"
    if "toStr E key0 = Inr key \<and> propKey E key0 = key \<and> getArchive E s key0 = None"
  proof -
    from that have a: "toStr E key0 = Inr key" and b: "propKey E key0 = key"
      and c: "map_of (archives s) key = None" by (auto simp: getArchive_def)
    show ?thesis
      by (simp add: s' getArchive_def isLoadingArchive_def loadArchive_enter_def
            AList.delete_conv' a b c)
  qed
  from 1 2 3 4 5 show ?thesis by blast
qed

text \<open>The theorem at the state in which \<open>keyA\<close> is being loaded.\<close>

theorem load_failure_propagates_witness:
  "0 < length (inners loadingState) \<and> iresult (inners loadingState ! 0) = Pending
   \<and> ikey (inners loadingState ! 0) = keyA
   \<and> 0 < length (loads loadingState) \<and> loads loadingState ! 0 = ReturnedPromise 0
   \<and> loadResult (readyCallback 0 (Some (Error ''disk'')) loadingState) 0 = Rejected (Error ''disk'')
   \<and> toStr sampleEnv (KStr keyA) = Inr keyA \<and> map_of (archives loadingState) keyA = None
   \<and> map_of (loadPromises loadingState) keyA = Some 0
   \<and> loadResult (readyCallback 0 (Some (Error ''disk'')) (loadArchive sampleEnv (KStr keyA) loadingState))
        (length (loads loadingState)) = Rejected (Error ''disk'')
   \<and> propKey sampleEnv (KStr keyA) = keyA \<and> getArchive sampleEnv loadingState (KStr keyA) = None
   \<and> loadArchive_enter sampleEnv (readyCallback 0 (Some (Error ''disk'')) loadingState) (KStr keyA)
        = AwaitMkdirp keyA"
proof -
  have h1: "0 < length (inners loadingState)" by code_simp
  have h2: "iresult (inners loadingState ! 0) = Pending" by code_simp
  have h3: "ikey (inners loadingState ! 0) = keyA" by code_simp
  have h4: "0 < length (loads loadingState)" by code_simp
  have h5: "loads loadingState ! 0 = ReturnedPromise 0" by code_simp
  have h6: "toStr sampleEnv (KStr keyA) = Inr keyA" by code_simp
  have h7: "map_of (archives loadingState) keyA = None" by code_simp
  have h8: "map_of (loadPromises loadingState) keyA = Some 0" by code_simp
  have h9: "propKey sampleEnv (KStr keyA) = keyA" by simp
  have h10: "getArchive sampleEnv loadingState (KStr keyA) = None" by code_simp
  show ?thesis
    using h1 h2 h3 h4 h5 h6 h7 h8 h9 h10
      load_failure_propagates[OF h1 h2 h3, of "Error ''disk''" sampleEnv "KStr keyA"]
    by blast
qed

subsection \<open>Closing\<close>

text \<open>
  C9. When the canonical form of the key has no entry in \<open>archives\<close>, \<open>closeArchive\<close>
  changes nothing: the only difference between the states is the record of the call
  itself, which has returned, so its promise is fulfilled. In particular this is so right
  after a close of the same key has completed: closing a closed key has no effect.
\<close>

theorem closeArchive_absent_noop:
  assumes "toStr E key0 = Inr key" and "map_of (archives s) key = None"
  shows "closeArchive E key0 s = s\<lparr>closes := closes s @ [CloseReturned]\<rparr>
       \<and> closeResult (closeArchive E key0 s) (length (closes s)) = Fulfilled ()
       \<and> (c < length (closes t) \<and> closes t ! c = AwaitClose key a \<longrightarrow>
            closeArchive E key0 (closeCallback c r t)
              = (closeCallback c r t)\<lparr>closes := closes (closeCallback c r t) @ [CloseReturned]\<rparr>)"
proof -
  have 1: "closeArchive E key0 s = s\<lparr>closes := closes s @ [CloseReturned]\<rparr>"
    using assms by (rule closeArchive_not_resident)
  have 2: "closeResult (closeArchive E key0 s) (length (closes s)) = Fulfilled ()"
    by (simp add: 1 closeResult_def)
  have 3: "closeArchive E key0 (closeCallback c r t)
              = (closeCallback c r t)\<lparr>closes := closes (closeCallback c r t) @ [CloseReturned]\<rparr>"
    if "c < length (closes t)" and "closes t ! c = AwaitClose key a"
  proof -
    from that have "map_of (archives (closeCallback c r t)) key = None"
      by (simp add: closeCallback_def AList.delete_conv')
    with assms(1) show ?thesis by (rule closeArchive_not_resident)
  qed
  from 1 2 3 show ?thesis by blast
qed

text \<open>The theorem on the empty registry.\<close>

theorem closeArchive_absent_noop_witness:
  "toStr sampleEnv (KStr keyA) = Inr keyA \<and> map_of (archives init) keyA = None
   \<and> closeArchive sampleEnv (KStr keyA) init = init\<lparr>closes := closes init @ [CloseReturned]\<rparr>
   \<and> closeResult (closeArchive sampleEnv (KStr keyA) init) (length (closes init)) = Fulfilled ()"
proof -
  have h1: "toStr sampleEnv (KStr keyA) = Inr keyA" by code_simp
  have h2: "map_of (archives init) keyA = None" by code_simp
  show ?thesis using h1 h2 closeArchive_absent_noop[OF h1 h2, of 0 init 0 None] by blast
qed

text \<open>
  C2, as the claim states it, fails: in \<open>loadingState\<close> the key is being loaded (the
  load is pending), yet \<open>closeArchive\<close> is fulfilled by the very step that calls it, while
  the load is still pending; when the load then succeeds the archive is resident.
\<close>

theorem closeArchive_while_loading_counterexample:
  "isLoadingArchive sampleEnv loadingState (KStr keyA)
   \<and> loadResult loadingState 0 = Pending
   \<and> closeResult (step sampleEnv loadingState (CloseArchive (KStr keyA))) 0 = Fulfilled ()
   \<and> loadResult (step sampleEnv loadingState (CloseArchive (KStr keyA))) 0 = Pending
   \<and> getArchive sampleEnv
        (run sampleEnv loadingState [CloseArchive (KStr keyA), ReadyCallback 0 None])
        (KStr keyA) = Some 0"
  by code_simp

text \<open>
  C2, amended. \<open>closeArchive\<close> called while the key is being loaded and not resident
  does not wait: it returns at once and its promise is fulfilled. It does not start a
  close of the key (the call is not suspended at \<open>archive.close\<close>), the load stays
  pending and registered in \<open>loadPromises\<close>, the key stays absent from \<open>archives\<close>,
  and a load that then succeeds makes the archive resident.
\<close>

theorem closeArchive_during_load:
  assumes "toStr E key0 = Inr key" and "map_of (archives s) key = None"
    and "map_of (loadPromises s) key = Some p"
    and "p < length (inners s)" and "iresult (inners s ! p) = Pending"
    and "ikey (inners s ! p) = key"
  shows "closeResult (closeArchive E key0 s) (length (closes s)) = Fulfilled ()
       \<and> closes (closeArchive E key0 s) ! length (closes s) \<noteq> AwaitClose key a
       \<and> iresult (inners (closeArchive E key0 s) ! p) = Pending
       \<and> map_of (loadPromises (closeArchive E key0 s)) key = Some p
       \<and> map_of (archives (closeArchive E key0 s)) key = None
       \<and> map_of (archives (readyCallback p None (closeArchive E key0 s))) key
           = Some (iarchive (inners s ! p))"
proof -
  have 1: "closeArchive E key0 s = s\<lparr>closes := closes s @ [CloseReturned]\<rparr>"
    using assms(1,2) by (rule closeArchive_not_resident)
  show ?thesis using assms
    by (simp add: 1 closeResult_def readyCallback_def Let_def AList.update_conv')
qed

text \<open>The theorem at the state in which \<open>keyA\<close> is being loaded.\<close>

theorem closeArchive_during_load_witness:
  "toStr sampleEnv (KStr keyA) = Inr keyA \<and> map_of (archives loadingState) keyA = None
   \<and> map_of (loadPromises loadingState) keyA = Some 0
   \<and> closeResult (closeArchive sampleEnv (KStr keyA) loadingState) (length (closes loadingState))
        = Fulfilled ()
   \<and> map_of (archives (readyCallback 0 None (closeArchive sampleEnv (KStr keyA) loadingState))) keyA
        = Some (iarchive (inners loadingState ! 0))"
proof -
  have h1: "toStr sampleEnv (KStr keyA) = Inr keyA" by code_simp
  have h2: "map_of (archives loadingState) keyA = None" by code_simp
  have h3: "map_of (loadPromises loadingState) keyA = Some 0" by code_simp
  have h4: "0 < length (inners loadingState)" by code_simp
  have h5: "iresult (inners loadingState ! 0) = Pending" by code_simp
  have h6: "ikey (inners loadingState ! 0) = keyA" by code_simp
  show ?thesis using h1 h2 h3 closeArchive_during_load[OF h1 h2 h3 h4 h5 h6] by simp
qed

text \<open>
  C5, as the claim states it, fails: after \<open>closeArchive(keyA)\<close> has resolved in
  \<open>loadingState\<close>, \<open>isLoadingArchive(keyA)\<close> is true.
\<close>

theorem closeArchive_resolved_counterexample:
  "closeResult (step sampleEnv loadingState (CloseArchive (KStr keyA))) 0 = Fulfilled ()
   \<and> isLoadingArchive sampleEnv (step sampleEnv loadingState (CloseArchive (KStr keyA))) (KStr keyA)"
  by code_simp

text \<open>
  C5, amended. Let the key be in canonical form. In the state in which a call of
  \<open>closeArchive\<close> resolves, be it the step of the call itself or a later step of a call
  that was waiting for the storage to close, \<open>getArchive\<close> of the key is absent, and
  \<open>isLoadingArchive\<close> of the key is what it was before that step: \<open>closeArchive\<close>
  never changes \<open>loadPromises\<close>.
\<close>

theorem closeArchive_resolved:
  assumes k: "toStr E key0 = Inr key" and pk: "propKey E key0 = key"
  shows "(closeResult (closeArchive E key0 s) (length (closes s)) = Fulfilled () \<longrightarrow>
            getArchive E (closeArchive E key0 s) key0 = None
            \<and> isLoadingArchive E (closeArchive E key0 s) key0 = isLoadingArchive E s key0)
       \<and> (c < length (closes t) \<and> closes t ! c = AwaitClose key a
            \<and> closeResult (step E t ev) c = Fulfilled () \<longrightarrow>
            getArchive E (step E t ev) key0 = None
            \<and> isLoadingArchive E (step E t ev) key0 = isLoadingArchive E t key0)"
proof (intro conjI impI)
  assume f: "closeResult (closeArchive E key0 s) (length (closes s)) = Fulfilled ()"
  have fr: "closeFrame s (closeArchive E key0 s)" by (rule closeArchive_closeFrame)
  have "map_of (archives s) key = None"
  proof (rule ccontr)
    assume "map_of (archives s) key \<noteq> None"
    then obtain a' where a': "map_of (archives s) key = Some a'" by blast
    obtain ss r where d: "destroyAll (replicationStreams (objs s ! a')) (streams s) = (ss, r)"
      by (cases "destroyAll (replicationStreams (objs s ! a')) (streams s)")
    have "snd (closeArchive_enter E key0 s) \<noteq> CloseReturned"
      using k a' d by (cases r) (simp_all add: closeArchive_enter_def)
    with f show False
      by (cases "snd (closeArchive_enter E key0 s)") (simp_all add: closeResult_def closeArchive_closes)
  qed
  with fr show "getArchive E (closeArchive E key0 s) key0 = None"
    by (simp add: getArchive_def pk closeFrame_def)
  from fr show "isLoadingArchive E (closeArchive E key0 s) key0 = isLoadingArchive E s key0"
    by (simp add: isLoadingArchive_def closeFrame_def)
next
  assume h: "c < length (closes t) \<and> closes t ! c = AwaitClose key a
            \<and> closeResult (step E t ev) c = Fulfilled ()"
  have "\<exists>r. ev = CloseCallback c r"
  proof (rule ccontr)
    assume "\<not> (\<exists>r. ev = CloseCallback c r)"
    then have "closes (step E t ev) ! c = closes t ! c" using h step_closes_nth by blast
    moreover from h have "closes t ! c = AwaitClose key a" by blast
    ultimately have "closeResult (step E t ev) c = Pending" by (simp add: closeResult_def)
    with h show False by simp
  qed
  then obtain r where ev: "ev = CloseCallback c r" by blast
  from h show "getArchive E (step E t ev) key0 = None"
    by (simp add: ev closeCallback_def getArchive_def pk AList.delete_conv')
  from h show "isLoadingArchive E (step E t ev) key0 = isLoadingArchive E t key0"
    by (simp add: ev closeCallback_def isLoadingArchive_def)
qed

text \<open>The theorem on the empty registry and at the state in which \<open>keyA\<close> is being closed.\<close>

theorem closeArchive_resolved_witness:
  "toStr sampleEnv (KStr keyA) = Inr keyA \<and> propKey sampleEnv (KStr keyA) = keyA
   \<and> closeResult (closeArchive sampleEnv (KStr keyA) init) (length (closes init)) = Fulfilled ()
   \<and> getArchive sampleEnv (closeArchive sampleEnv (KStr keyA) init) (KStr keyA) = None
   \<and> 0 < length (closes closingState) \<and> closes closingState ! 0 = AwaitClose keyA 0
   \<and> closeResult (step sampleEnv closingState (CloseCallback 0 None)) 0 = Fulfilled ()
   \<and> getArchive sampleEnv (step sampleEnv closingState (CloseCallback 0 None)) (KStr keyA) = None
   \<and> \<not> isLoadingArchive sampleEnv (step sampleEnv closingState (CloseCallback 0 None)) (KStr keyA)"
proof -
  have h1: "toStr sampleEnv (KStr keyA) = Inr keyA" by code_simp
  have h2: "propKey sampleEnv (KStr keyA) = keyA" by simp
  have h3: "closeResult (closeArchive sampleEnv (KStr keyA) init) (length (closes init)) = Fulfilled ()"
    by code_simp
  have h4: "0 < length (closes closingState)" by code_simp
  have h5: "closes closingState ! 0 = AwaitClose keyA 0" by code_simp
  have h6: "closeResult (step sampleEnv closingState (CloseCallback 0 None)) 0 = Fulfilled ()"
    by code_simp
  have h7: "\<not> isLoadingArchive sampleEnv closingState (KStr keyA)" by code_simp
  show ?thesis
    using h1 h2 h3 h4 h5 h6 h7
      closeArchive_resolved[OF h1 h2, of init 0 closingState 0 "CloseCallback 0 None"]
    by blast
qed




subsection \<open>Replication streams\<close>

text \<open>
  C7. In every state the archiver can reach from the empty registry, a stream is in the
  collection of an archive exactly when that archive is the one that created it and its
  \<open>close\<close> event has not been emitted. A new connection appends the new stream to the
  collection of its archive, and the \<open>close\<close> event of a stream, in whatever state the
  stream is (destroyed or not, timed out or not), leaves it in no collection.
\<close>

theorem stream_membership:
  "(\<forall>sid<length (streams (run E init evs)). \<forall>a<length (objs (run E init evs)).
      (sid \<in> set (replicationStreams (objs (run E init evs) ! a)))
        = (owner (streams (run E init evs) ! sid) = a \<and> \<not> closed (streams (run E init evs) ! sid)))
   \<and> (a < length (objs (run E init evs)) \<and> swarm (objs (run E init evs) ! a) = Some Joined \<longrightarrow>
        replicationStreams (objs (connection a thr (run E init evs)) ! a)
          = replicationStreams (objs (run E init evs) ! a) @ [length (streams (run E init evs))]
        \<and> owner (streams (connection a thr (run E init evs)) ! length (streams (run E init evs))) = a
        \<and> \<not> closed (streams (connection a thr (run E init evs)) ! length (streams (run E init evs))))
   \<and> (sid < length (streams (run E init evs)) \<longrightarrow>
        closed (streams (streamClose sid (run E init evs)) ! sid)
        \<and> (\<forall>b<length (objs (run E init evs)).
              sid \<notin> set (replicationStreams (objs (streamClose sid (run E init evs)) ! b))))"
proof -
  let ?s = "run E init evs"
  have inv: "streamsInv ?s" using streamsInv_init by (rule streamsInv_run)
  have 1: "\<forall>sid<length (streams ?s). \<forall>a<length (objs ?s).
      (sid \<in> set (replicationStreams (objs ?s ! a)))
        = (owner (streams ?s ! sid) = a \<and> \<not> closed (streams ?s ! sid))"
    using streamsInv_member[OF inv] by blast
  have 2: "replicationStreams (objs (connection a thr ?s) ! a)
          = replicationStreams (objs ?s ! a) @ [length (streams ?s)]
        \<and> owner (streams (connection a thr ?s) ! length (streams ?s)) = a
        \<and> \<not> closed (streams (connection a thr ?s) ! length (streams ?s))"
    if "a < length (objs ?s) \<and> swarm (objs ?s ! a) = Some Joined"
    using that by (simp add: connection_def)
  have 3: "closed (streams (streamClose sid ?s) ! sid)
        \<and> (\<forall>b<length (objs ?s). sid \<notin> set (replicationStreams (objs (streamClose sid ?s) ! b)))"
    if "sid < length (streams ?s)"
    using that streamClose_removed[OF inv that] by (simp add: streamClose_def Let_def)
  from 1 2 3 show ?thesis by blast
qed

text \<open>The theorem at the state with two connections on \<open>keyA\<close>.\<close>

theorem stream_membership_witness:
  "0 < length (streams (run sampleEnv init connectedEvents))
   \<and> 0 < length (objs (run sampleEnv init connectedEvents))
   \<and> swarm (objs (run sampleEnv init connectedEvents) ! 0) = Some Joined
   \<and> 0 \<in> set (replicationStreams (objs (run sampleEnv init connectedEvents) ! 0))
   \<and> \<not> closed (streams (run sampleEnv init connectedEvents) ! 0)
   \<and> replicationStreams (objs (connection 0 None (run sampleEnv init connectedEvents)) ! 0) = [0, 1, 2]
   \<and> closed (streams (streamClose 0 (run sampleEnv init connectedEvents)) ! 0)
   \<and> 0 \<notin> set (replicationStreams (objs (streamClose 0 (run sampleEnv init connectedEvents)) ! 0))"
proof -
  have h1: "0 < length (streams (run sampleEnv init connectedEvents))" by code_simp
  have h2: "0 < length (objs (run sampleEnv init connectedEvents))" by code_simp
  have h3: "swarm (objs (run sampleEnv init connectedEvents) ! 0) = Some Joined" by code_simp
  have h4: "owner (streams (run sampleEnv init connectedEvents) ! 0) = 0" by code_simp
  have h5: "\<not> closed (streams (run sampleEnv init connectedEvents) ! 0)" by code_simp
  have h6: "replicationStreams (objs (run sampleEnv init connectedEvents) ! 0) = [0, 1]" by code_simp
  have h7: "length (streams (run sampleEnv init connectedEvents)) = 2" by code_simp
  show ?thesis
    using h1 h2 h3 h4 h5 h6 h7 stream_membership[of sampleEnv connectedEvents 0 None 0]
    by simp
qed

text \<open>
  C6. Take a stream whose timer is set, due at \<open>due\<close>, in a reachable state. Before
  \<open>due\<close> the timer callback does not run. From \<open>due\<close> on it runs: \<open>destroy\<close> is called
  on this stream with the timeout error and the timer is spent, no other stream changes,
  \<open>archives\<close>, \<open>loadPromises\<close> and the archive objects are as before, and after the
  \<open>close\<close> event of the stream it is in no collection. If instead the stream emits
  \<open>handshake\<close>, the timer is cleared, stays cleared whatever happens afterwards, its
  callback never runs and no call of \<open>destroy\<close> with the timeout error is added. A new
  stream has its timer due 5000 ms after its creation.
\<close>

theorem handshake_deadline:
  assumes sid: "sid < length (streams (run E init evs))"
    and armed: "TO (streams (run E init evs) ! sid) = Armed due"
  shows "(now (run E init evs) < due \<longrightarrow> timerFire sid (run E init evs) = run E init evs)
   \<and> (due \<le> now (run E init evs) \<longrightarrow>
        destroyCalls (streams (timerFire sid (run E init evs)) ! sid)
          = destroyCalls (streams (run E init evs) ! sid) @ [Some timeoutError]
        \<and> TO (streams (timerFire sid (run E init evs)) ! sid) = Fired
        \<and> (\<forall>j. j \<noteq> sid \<longrightarrow> streams (timerFire sid (run E init evs)) ! j = streams (run E init evs) ! j)
        \<and> archives (timerFire sid (run E init evs)) = archives (run E init evs)
        \<and> loadPromises (timerFire sid (run E init evs)) = loadPromises (run E init evs)
        \<and> objs (timerFire sid (run E init evs)) = objs (run E init evs)
        \<and> (\<forall>a<length (objs (run E init evs)).
              sid \<notin> set (replicationStreams
                 (objs (streamClose sid (timerFire sid (run E init evs))) ! a))))
   \<and> TO (streams (streamHandshake sid (run E init evs)) ! sid) = Cleared
   \<and> TO (streams (run E (streamHandshake sid (run E init evs)) evs') ! sid) = Cleared
   \<and> timerFire sid (run E (streamHandshake sid (run E init evs)) evs')
        = run E (streamHandshake sid (run E init evs)) evs'
   \<and> timeoutCalls (streams (run E (streamHandshake sid (run E init evs)) evs') ! sid)
        = timeoutCalls (streams (run E init evs) ! sid)
   \<and> (a < length (objs (run E init evs)) \<and> swarm (objs (run E init evs) ! a) = Some Joined \<longrightarrow>
        TO (streams (connection a thr (run E init evs)) ! length (streams (run E init evs)))
          = Armed (now (run E init evs) + 5000))"
proof -
  let ?s = "run E init evs"
  have inv: "streamsInv ?s" using streamsInv_init by (rule streamsInv_run)
  have 1: "timerFire sid ?s = ?s" if "now ?s < due"
    using that sid armed by (simp add: timerFire_def Let_def)
  have f: "timerFire sid ?s = ?s\<lparr>log := log ?s @ [HandshakeTimeout sid],
        streams := (streams ?s)[sid := (streams ?s ! sid)\<lparr>TO := Fired,
           destroyCalls := destroyCalls (streams ?s ! sid) @ [Some timeoutError]\<rparr>]\<rparr>"
    if "due \<le> now ?s"
    using that sid armed by (simp add: timerFire_def Let_def)
  have 2: "destroyCalls (streams (timerFire sid ?s) ! sid)
          = destroyCalls (streams ?s ! sid) @ [Some timeoutError]
        \<and> TO (streams (timerFire sid ?s) ! sid) = Fired
        \<and> (\<forall>j. j \<noteq> sid \<longrightarrow> streams (timerFire sid ?s) ! j = streams ?s ! j)
        \<and> archives (timerFire sid ?s) = archives ?s
        \<and> loadPromises (timerFire sid ?s) = loadPromises ?s
        \<and> objs (timerFire sid ?s) = objs ?s" if "due \<le> now ?s"
    using sid by (simp add: f[OF that])
  have 3: "\<forall>a<length (objs ?s).
              sid \<notin> set (replicationStreams (objs (streamClose sid (timerFire sid ?s)) ! a))"
    if "due \<le> now ?s"
  proof -
    have i: "streamsInv (timerFire sid ?s)" using inv by (rule streamsInv_timerFire)
    have l: "sid < length (streams (timerFire sid ?s))" using sid by (simp add: f[OF that])
    have o: "length (objs (timerFire sid ?s)) = length (objs ?s)" by (simp add: f[OF that])
    show ?thesis using streamClose_removed[OF i l] o by simp
  qed
  have oh: "onceHandshake (streams ?s ! sid)" using inv sid armed by (rule streamsInv_TO)
  let ?h = "streamHandshake sid ?s"
  have hl: "sid < length (streams ?h)" using sid by (simp add: streamHandshake_def Let_def)
  have 4: "TO (streams ?h ! sid) = Cleared"
    using sid armed oh by (simp add: streamHandshake_def Let_def)
  have ht: "timeoutCalls (streams ?h ! sid) = timeoutCalls (streams ?s ! sid)"
    using sid oh by (simp add: streamHandshake_def Let_def timeoutCalls_def)
  note r = cleared_run[OF hl 4, of E evs']
  have 5: "TO (streams (run E ?h evs') ! sid) = Cleared" using r by blast
  have 6: "timerFire sid (run E ?h evs') = run E ?h evs'"
    using r by (simp add: timerFire_def Let_def)
  have 7: "timeoutCalls (streams (run E ?h evs') ! sid) = timeoutCalls (streams ?s ! sid)"
    using r ht by simp
  have 8: "TO (streams (connection a thr ?s) ! length (streams ?s)) = Armed (now ?s + 5000)"
    if "a < length (objs ?s) \<and> swarm (objs ?s ! a) = Some Joined"
    using that by (simp add: connection_def handshakeTimeout_def)
  from 1 2 3 4 5 6 7 8 show ?thesis by blast
qed

text \<open>
  The theorem at the state with two connections on \<open>keyA\<close>, before the deadline and
  at the deadline.
\<close>

theorem handshake_deadline_witness:
  "0 < length (streams (run sampleEnv init timedOutEvents))
   \<and> TO (streams (run sampleEnv init timedOutEvents) ! 0) = Armed 5000
   \<and> 5000 \<le> now (run sampleEnv init timedOutEvents)
   \<and> destroyCalls (streams (timerFire 0 (run sampleEnv init timedOutEvents)) ! 0)
        = [Some timeoutError]
   \<and> streams (timerFire 0 (run sampleEnv init timedOutEvents)) ! 1
        = streams (run sampleEnv init timedOutEvents) ! 1
   \<and> archives (timerFire 0 (run sampleEnv init timedOutEvents)) = [(keyA, 0)]
   \<and> 0 \<notin> set (replicationStreams
         (objs (streamClose 0 (timerFire 0 (run sampleEnv init timedOutEvents))) ! 0))
   \<and> 0 < length (streams (run sampleEnv init connectedEvents))
   \<and> TO (streams (run sampleEnv init connectedEvents) ! 0) = Armed 5000
   \<and> now (run sampleEnv init connectedEvents) < 5000
   \<and> timerFire 0 (run sampleEnv init connectedEvents) = run sampleEnv init connectedEvents
   \<and> TO (streams (run sampleEnv (streamHandshake 0 (run sampleEnv init connectedEvents))
         [Tick 5000, TimerFire 0]) ! 0) = Cleared
   \<and> timeoutCalls (streams (run sampleEnv (streamHandshake 0 (run sampleEnv init connectedEvents))
         [Tick 5000, TimerFire 0]) ! 0) = []
   \<and> TO (streams (connection 0 None (run sampleEnv init timedOutEvents)) ! 2) = Armed 10000"
proof -
  let ?t = "run sampleEnv init timedOutEvents"
  let ?c = "run sampleEnv init connectedEvents"
  have t1: "0 < length (streams ?t)" by code_simp
  have t2: "TO (streams ?t ! 0) = Armed 5000" by code_simp
  have t3: "5000 \<le> now ?t" by code_simp
  have t4: "destroyCalls (streams ?t ! 0) = []" by code_simp
  have t5: "archives ?t = [(keyA, 0)]" by code_simp
  have t6: "0 < length (objs ?t)" by code_simp
  have t7: "swarm (objs ?t ! 0) = Some Joined" by code_simp
  have t8: "length (streams ?t) = 2" by code_simp
  have t9: "now ?t = 5000" by code_simp
  have c1: "0 < length (streams ?c)" by code_simp
  have c2: "TO (streams ?c ! 0) = Armed 5000" by code_simp
  have c3: "now ?c < 5000" by code_simp
  have c4: "timeoutCalls (streams ?c ! 0) = []" by code_simp
  note A = handshake_deadline[OF t1 t2, where evs'="[]" and a=0 and thr=None]
  note B = handshake_deadline[OF c1 c2, where evs'="[Tick 5000, TimerFire 0]" and a=0 and thr=None]
  have a1: "destroyCalls (streams (timerFire 0 ?t) ! 0) = [Some timeoutError]"
    using A t3 t4 by simp
  have a2: "streams (timerFire 0 ?t) ! 1 = streams ?t ! 1" using A t3 by simp
  have a3: "archives (timerFire 0 ?t) = [(keyA, 0)]" using A t3 t5 by simp
  have a4: "0 \<notin> set (replicationStreams (objs (streamClose 0 (timerFire 0 ?t)) ! 0))"
    using A t3 t6 by blast
  have a5: "TO (streams (connection 0 None ?t) ! 2) = Armed 10000"
    using A t6 t7 t8 t9 by simp
  have b1: "timerFire 0 ?c = ?c" using B c3 by blast
  have b2: "TO (streams (run sampleEnv (streamHandshake 0 ?c) [Tick 5000, TimerFire 0]) ! 0) = Cleared"
    using B by blast
  have b3: "timeoutCalls (streams (run sampleEnv (streamHandshake 0 ?c) [Tick 5000, TimerFire 0]) ! 0) = []"
    using B c4 by simp
  from t1 t2 t3 a1 a2 a3 a4 c1 c2 c3 b1 b2 b3 a5 show ?thesis by blast
qed

subsection \<open>Raw and canonical keys\<close>



section \<open>Properties of the per-key lock\<close>

lemma lockInvD:
  assumes "lockInv h n acq q crit waits rid"
  shows "\<And>r. acq r = (h = Some r \<or> (\<exists>t. crit t \<and> rid t = r))"
    and "\<And>t. crit t \<Longrightarrow> h \<noteq> Some (rid t)"
    and "\<And>t1 t2. crit t1 \<Longrightarrow> crit t2 \<Longrightarrow> rid t1 = rid t2 \<Longrightarrow> t1 = t2"
    and "\<And>t. crit t \<or> waits t \<Longrightarrow> t < n"
    and "\<And>t. \<not> (crit t \<and> waits t)"
    and "\<And>r. sorted_wrt (<) (q r)"
    and "\<And>r. set (q r) = {t. waits t \<and> rid t = r}"
    and "\<And>r. q r \<noteq> [] \<Longrightarrow> acq r"
    and "\<And>t1 t2. t1 < t2 \<Longrightarrow> t2 < n \<Longrightarrow> rid t1 = rid t2 \<Longrightarrow> waits t1 \<Longrightarrow> waits t2"
proof -
  from assms have c: "(\<forall>r. acq r = (h = Some r \<or> (\<exists>t. crit t \<and> rid t = r))) \<and>
      (\<forall>t. crit t \<longrightarrow> h \<noteq> Some (rid t)) \<and>
      (\<forall>t1 t2. crit t1 \<and> crit t2 \<and> rid t1 = rid t2 \<longrightarrow> t1 = t2) \<and>
      (\<forall>t. crit t \<or> waits t \<longrightarrow> t < n) \<and>
      (\<forall>t. \<not> (crit t \<and> waits t)) \<and>
      (\<forall>r. sorted_wrt (<) (q r) \<and> set (q r) = {t. waits t \<and> rid t = r}) \<and>
      (\<forall>r. q r \<noteq> [] \<longrightarrow> acq r) \<and>
      (\<forall>t1 t2. t1 < t2 \<and> t2 < n \<and> rid t1 = rid t2 \<and> waits t1 \<longrightarrow> waits t2)"
    unfolding lockInv_def .
  note c1 = c[THEN conjunct1]
  note c2 = c[THEN conjunct2, THEN conjunct1]
  note c3 = c[THEN conjunct2, THEN conjunct2, THEN conjunct1]
  note c4 = c[THEN conjunct2, THEN conjunct2, THEN conjunct2, THEN conjunct1]
  note c5 = c[THEN conjunct2, THEN conjunct2, THEN conjunct2, THEN conjunct2, THEN conjunct1]
  note c6 = c[THEN conjunct2, THEN conjunct2, THEN conjunct2, THEN conjunct2, THEN conjunct2,
              THEN conjunct1]
  note c7 = c[THEN conjunct2, THEN conjunct2, THEN conjunct2, THEN conjunct2, THEN conjunct2,
              THEN conjunct2, THEN conjunct1]
  note c8 = c[THEN conjunct2, THEN conjunct2, THEN conjunct2, THEN conjunct2, THEN conjunct2,
              THEN conjunct2, THEN conjunct2]
  show "\<And>r. acq r = (h = Some r \<or> (\<exists>t. crit t \<and> rid t = r))" using c1 by (rule spec)
  show "\<And>t. crit t \<Longrightarrow> h \<noteq> Some (rid t)" using c2 by blast
  show "\<And>t1 t2. crit t1 \<Longrightarrow> crit t2 \<Longrightarrow> rid t1 = rid t2 \<Longrightarrow> t1 = t2" using c3 by blast
  show "\<And>t. crit t \<or> waits t \<Longrightarrow> t < n" using c4 by blast
  show "\<And>t. \<not> (crit t \<and> waits t)" using c5 by blast
  show "\<And>r. sorted_wrt (<) (q r)" using c6 by simp
  show "\<And>r. set (q r) = {t. waits t \<and> rid t = r}" using c6 by simp
  show "\<And>r. q r \<noteq> [] \<Longrightarrow> acq r" using c7 by blast
  show "\<And>t1 t2. t1 < t2 \<Longrightarrow> t2 < n \<Longrightarrow> rid t1 = rid t2 \<Longrightarrow> waits t1 \<Longrightarrow> waits t2"
    using c8 by blast
qed

lemma lockInv_queued:
  assumes inv: "lockInv None n acq q crit waits rid" and a: "acq r"
  shows "lockInv None (Suc n) acq (q(r := q r @ [n])) crit (waits(n := True)) (rid(n := r))"
proof -
  note d = lockInvD[OF inv]
  from d(4) have nn: "\<not> crit n" "\<not> waits n" by auto
  have lt: "\<forall>x\<in>set (q r). x < n" using d(7)[of r] d(4) by auto
  show ?thesis
    unfolding lockInv_def
  proof (intro conjI allI impI)
    fix r'
    have "(\<exists>t. crit t \<and> (rid(n := r)) t = r') = (\<exists>t. crit t \<and> rid t = r')"
      using nn by (metis fun_upd_apply)
    then show "acq r' = (None = Some r' \<or> (\<exists>t. crit t \<and> (rid(n := r)) t = r'))"
      using d(1)[of r'] by simp
    show "sorted_wrt (<) ((q(r := q r @ [n])) r')"
      using d(6) lt by (simp add: sorted_wrt_append)
    show "set ((q(r := q r @ [n])) r') = {t. (waits(n := True)) t \<and> (rid(n := r)) t = r'}"
      using d(7)[of r'] nn by auto
    assume "(q(r := q r @ [n])) r' \<noteq> []"
    then show "acq r'" using d(8)[of r'] a by (cases "r' = r") simp_all
  next
    fix t assume "crit t" then show "None \<noteq> Some ((rid(n := r)) t)" by simp
  next
    fix t1 t2 assume h: "crit t1 \<and> crit t2 \<and> (rid(n := r)) t1 = (rid(n := r)) t2"
    with nn have "t1 \<noteq> n" "t2 \<noteq> n" by auto
    with h show "t1 = t2" using d(3)[of t1 t2] by simp
  next
    fix t assume "crit t \<or> (waits(n := True)) t"
    then show "t < Suc n" using d(4)[of t] by (cases "t = n") auto
  next
    fix t show "\<not> (crit t \<and> (waits(n := True)) t)" using d(5)[of t] nn by (cases "t = n") auto
  next
    fix t1 t2
    assume h: "t1 < t2 \<and> t2 < Suc n \<and> (rid(n := r)) t1 = (rid(n := r)) t2 \<and> (waits(n := True)) t1"
    show "(waits(n := True)) t2"
    proof (cases "t2 = n")
      case True then show ?thesis by simp
    next
      case False
      with h have "t1 < t2" "t2 < n" "rid t1 = rid t2" "waits t1" by (auto split: if_splits)
      then have "waits t2" by (rule d(9))
      then show ?thesis by simp
    qed
  qed
qed

lemma lockInv_granted:
  assumes inv: "lockInv None n acq q crit waits rid" and a: "\<not> acq r"
  shows "lockInv None (Suc n) (acq(r := True)) q (crit(n := True)) waits (rid(n := r))"
proof -
  note d = lockInvD[OF inv]
  from d(4) have nn: "\<not> crit n" "\<not> waits n" by auto
  from d(1)[of r] a have nocrit: "\<And>t. crit t \<Longrightarrow> rid t \<noteq> r" by auto
  from d(8)[of r] a have "q r = []" by blast
  with d(7)[of r] have nowait: "\<And>t. waits t \<Longrightarrow> rid t \<noteq> r" by auto
  show ?thesis
    unfolding lockInv_def
  proof (intro conjI allI impI)
    fix r'
    show "(acq(r := True)) r' = (None = Some r' \<or> (\<exists>t. (crit(n := True)) t \<and> (rid(n := r)) t = r'))"
    proof (cases "r' = r")
      case True
      have "(crit(n := True)) n \<and> (rid(n := r)) n = r" by simp
      then have "\<exists>t. (crit(n := True)) t \<and> (rid(n := r)) t = r" by blast
      with True show ?thesis by simp
    next
      case False
      then have "(\<exists>t. (crit(n := True)) t \<and> (rid(n := r)) t = r') = (\<exists>t. crit t \<and> rid t = r')"
        using nn by (metis fun_upd_apply)
      with False show ?thesis using d(1)[of r'] by simp
    qed
    show "sorted_wrt (<) (q r')" by (rule d(6))
    show "set (q r') = {t. waits t \<and> (rid(n := r)) t = r'}" using d(7)[of r'] nn by auto
    assume "q r' \<noteq> []"
    then show "(acq(r := True)) r'" using d(8)[of r'] by simp
  next
    fix t assume "(crit(n := True)) t" then show "None \<noteq> Some ((rid(n := r)) t)" by simp
  next
    fix t1 t2 assume h: "(crit(n := True)) t1 \<and> (crit(n := True)) t2 \<and> (rid(n := r)) t1 = (rid(n := r)) t2"
    show "t1 = t2"
    proof (cases "t1 = n"; cases "t2 = n")
      assume "t1 = n" "t2 \<noteq> n"
      with h have "crit t2" "rid t2 = r" by auto
      with nocrit show ?thesis by blast
    next
      assume "t1 \<noteq> n" "t2 = n"
      with h have "crit t1" "rid t1 = r" by auto
      with nocrit show ?thesis by blast
    next
      assume "t1 \<noteq> n" "t2 \<noteq> n"
      with h show ?thesis using d(3)[of t1 t2] by simp
    qed simp
  next
    fix t assume "(crit(n := True)) t \<or> waits t"
    then show "t < Suc n" using d(4)[of t] by (cases "t = n") auto
  next
    fix t show "\<not> ((crit(n := True)) t \<and> waits t)" using d(5)[of t] nn by (cases "t = n") auto
  next
    fix t1 t2
    assume h: "t1 < t2 \<and> t2 < Suc n \<and> (rid(n := r)) t1 = (rid(n := r)) t2 \<and> waits t1"
    show "waits t2"
    proof (cases "t2 = n")
      case True
      with h nn have "rid t1 = r" "waits t1" by (auto split: if_splits)
      with nowait show ?thesis by blast
    next
      case False
      with h nn have "t1 < t2" "t2 < n" "rid t1 = rid t2" "waits t1" by (auto split: if_splits)
      then show ?thesis by (rule d(9))
    qed
  qed
qed

lemma lockInv_leave:
  assumes inv: "lockInv None n acq q crit waits rid" and c: "crit t"
  shows "lockInv (Some (rid t)) n acq q (crit(t := False)) waits rid"
proof -
  note d = lockInvD[OF inv]
  show ?thesis
    unfolding lockInv_def
  proof (intro conjI allI impI)
    fix r
    show "acq r = (Some (rid t) = Some r \<or> (\<exists>t'. (crit(t := False)) t' \<and> rid t' = r))"
    proof (cases "r = rid t")
      case True
      then show ?thesis using d(1)[of r] c by auto
    next
      case False
      then have "(\<exists>t'. (crit(t := False)) t' \<and> rid t' = r) = (\<exists>t'. crit t' \<and> rid t' = r)"
        by (metis fun_upd_apply)
      with False show ?thesis using d(1)[of r] by auto
    qed
    show "sorted_wrt (<) (q r)" by (rule d(6))
    show "set (q r) = {t. waits t \<and> rid t = r}" by (rule d(7))
    assume "q r \<noteq> []" then show "acq r" by (rule d(8))
  next
    fix t' assume "(crit(t := False)) t'"
    then have "crit t'" "t' \<noteq> t" by (auto split: if_splits)
    with c d(3)[of t' t] show "Some (rid t) \<noteq> Some (rid t')" by auto
  next
    fix t1 t2 assume "(crit(t := False)) t1 \<and> (crit(t := False)) t2 \<and> rid t1 = rid t2"
    then show "t1 = t2" using d(3)[of t1 t2] by (auto split: if_splits)
  next
    fix t' assume "(crit(t := False)) t' \<or> waits t'"
    then show "t' < n" using d(4)[of t'] by (auto split: if_splits)
  next
    fix t' show "\<not> ((crit(t := False)) t' \<and> waits t')" using d(5)[of t'] by auto
  next
    fix t1 t2 assume "t1 < t2 \<and> t2 < n \<and> rid t1 = rid t2 \<and> waits t1"
    then show "waits t2" using d(9)[of t1 t2] by blast
  qed
qed

lemma lockInv_free:
  assumes inv: "lockInv (Some r) n acq q crit waits rid" and e: "q r = []"
  shows "lockInv None n (acq(r := False)) q crit waits rid"
proof -
  note d = lockInvD[OF inv]
  have nocrit: "\<And>t. crit t \<Longrightarrow> rid t \<noteq> r" using d(2) by auto
  show ?thesis
    unfolding lockInv_def
  proof (intro conjI allI impI)
    fix r'
    show "(acq(r := False)) r' = (None = Some r' \<or> (\<exists>t. crit t \<and> rid t = r'))"
      using d(1)[of r'] nocrit by (cases "r' = r") auto
    show "sorted_wrt (<) (q r')" by (rule d(6))
    show "set (q r') = {t. waits t \<and> rid t = r'}" by (rule d(7))
    assume "q r' \<noteq> []" then show "(acq(r := False)) r'" using d(8)[of r'] e by (cases "r' = r") auto
  next
    fix t assume "crit t" then show "None \<noteq> Some (rid t)" by simp
  next
    fix t1 t2 assume "crit t1 \<and> crit t2 \<and> rid t1 = rid t2"
    then show "t1 = t2" using d(3)[of t1 t2] by blast
  next
    fix t assume "crit t \<or> waits t" then show "t < n" by (rule d(4))
  next
    fix t show "\<not> (crit t \<and> waits t)" by (rule d(5))
  next
    fix t1 t2 assume "t1 < t2 \<and> t2 < n \<and> rid t1 = rid t2 \<and> waits t1"
    then show "waits t2" using d(9)[of t1 t2] by blast
  qed
qed

lemma lockInv_grant:
  assumes inv: "lockInv (Some r) n acq q crit waits rid" and e: "q r = t # ts"
  shows "lockInv None n acq (q(r := ts)) (crit(t := True)) (waits(t := False)) rid"
proof -
  note d = lockInvD[OF inv]
  from d(7)[of r] e have t: "waits t" "rid t = r" by auto
  from d(6)[of r] e have ts: "sorted_wrt (<) ts" "\<forall>x\<in>set ts. t < x" by auto
  then have tn: "t \<notin> set ts" by auto
  have nocrit: "\<And>t'. crit t' \<Longrightarrow> rid t' \<noteq> r" using d(2) by auto
  from d(1)[of r] have ar: "acq r" by simp
  from d(5)[of t] t have nct: "\<not> crit t" by simp
  show ?thesis
    unfolding lockInv_def
  proof (intro conjI allI impI)
    fix r'
    show "acq r' = (None = Some r' \<or> (\<exists>t'. (crit(t := True)) t' \<and> rid t' = r'))"
    proof (cases "r' = r")
      case True
      have "(crit(t := True)) t \<and> rid t = r" using t by simp
      then have "\<exists>t'. (crit(t := True)) t' \<and> rid t' = r" by blast
      with True ar show ?thesis by simp
    next
      case False
      then have "(\<exists>t'. (crit(t := True)) t' \<and> rid t' = r') = (\<exists>t'. crit t' \<and> rid t' = r')"
        using t by (metis fun_upd_apply)
      with False show ?thesis using d(1)[of r'] by auto
    qed
    show "sorted_wrt (<) ((q(r := ts)) r')" using d(6)[of r'] ts by simp
    show "set ((q(r := ts)) r') = {t'. (waits(t := False)) t' \<and> rid t' = r'}"
    proof (cases "r' = r")
      case True
      have "set ts = set (q r) - {t}" using e tn by auto
      then show ?thesis using True d(7)[of r] by auto
    next
      case False
      then show ?thesis using d(7)[of r'] t by auto
    qed
    assume "(q(r := ts)) r' \<noteq> []"
    then show "acq r'" using d(8)[of r'] ar by (cases "r' = r") simp_all
  next
    fix t' assume "(crit(t := True)) t'" then show "None \<noteq> Some (rid t')" by simp
  next
    fix t1 t2 assume h: "(crit(t := True)) t1 \<and> (crit(t := True)) t2 \<and> rid t1 = rid t2"
    show "t1 = t2"
    proof (cases "t1 = t"; cases "t2 = t")
      assume "t1 = t" "t2 \<noteq> t"
      with h t have "crit t2" "rid t2 = r" by auto
      with nocrit show ?thesis by blast
    next
      assume "t1 \<noteq> t" "t2 = t"
      with h t have "crit t1" "rid t1 = r" by auto
      with nocrit show ?thesis by blast
    next
      assume "t1 \<noteq> t" "t2 \<noteq> t"
      with h show ?thesis using d(3)[of t1 t2] by simp
    qed simp
  next
    fix t' assume "(crit(t := True)) t' \<or> (waits(t := False)) t'"
    then show "t' < n" using d(4)[of t'] d(4)[of t] t by (cases "t' = t") auto
  next
    fix t' show "\<not> ((crit(t := True)) t' \<and> (waits(t := False)) t')"
      using d(5)[of t'] by (cases "t' = t") auto
  next
    fix t1 t2
    assume h: "t1 < t2 \<and> t2 < n \<and> rid t1 = rid t2 \<and> (waits(t := False)) t1"
    then have w1: "waits t1" and ne: "t1 \<noteq> t" by (auto split: if_splits)
    from h w1 have w2: "waits t2" using d(9)[of t1 t2] by blast
    have "t2 \<noteq> t"
    proof
      assume "t2 = t"
      with h t have "rid t1 = r" by simp
      with w1 d(7)[of r] e ne have "t1 \<in> set ts" by auto
      with ts have "t < t1" by blast
      with h \<open>t2 = t\<close> show False by simp
    qed
    with w2 show "(waits(t := False)) t2" by simp
  qed
qed

lemma lockKey_inj: "(lockKey a = lockKey b) = (a = b)"
  by (simp add: lockKey_def)

lemma usersInv_init: "usersInv None usersInit"
  by (simp add: usersInv_def lockInv_def usersInit_def critV_def waitsV_def)

lemma usersInv_put: "usersInv None s \<Longrightarrow> usersInv None (put rid s)"
proof (cases "acquired (locks s) (lockKey rid)")
  case True
  assume inv: "usersInv None s"
  let ?n = "length (puts s)"
  have s': "put rid s = s\<lparr>locks := (locks s)\<lparr>waiting := (waiting (locks s))
        (lockKey rid := waiting (locks s) (lockKey rid) @ [?n])\<rparr>,
      puts := puts s @ [\<lparr>recordId = rid, stage = AwaitLock\<rparr>]\<rparr>"
    using True by (simp add: put_def acquire_def)
  have v: "critV (put rid s) = critV s" "waitsV (put rid s) = (waitsV s)(?n := True)"
    "ridV (put rid s) = (ridV s)(?n := rid)"
    "(\<lambda>r. waiting (locks (put rid s)) (lockKey r))
        = (\<lambda>r. waiting (locks s) (lockKey r))(rid := waiting (locks s) (lockKey rid) @ [?n])"
    "(\<lambda>r. acquired (locks (put rid s)) (lockKey r)) = (\<lambda>r. acquired (locks s) (lockKey r))"
    by (auto simp: s' critV_def waitsV_def ridV_def fun_eq_iff nth_append critical_def lockKey_inj
          less_Suc_eq)
  show ?thesis
    unfolding usersInv_def v
    using lockInv_queued[OF inv[unfolded usersInv_def], of rid] True by (simp add: s')
next
  case False
  assume inv: "usersInv None s"
  let ?n = "length (puts s)"
  have s': "put rid s = s\<lparr>locks := (locks s)\<lparr>acquired := (acquired (locks s))(lockKey rid := True)\<rparr>,
      puts := puts s @ [\<lparr>recordId = rid, stage = AwaitPut\<rparr>]\<rparr>"
    using False by (simp add: put_def acquire_def)
  have v: "critV (put rid s) = (critV s)(?n := True)" "waitsV (put rid s) = waitsV s"
    "ridV (put rid s) = (ridV s)(?n := rid)"
    "(\<lambda>r. waiting (locks (put rid s)) (lockKey r)) = (\<lambda>r. waiting (locks s) (lockKey r))"
    "(\<lambda>r. acquired (locks (put rid s)) (lockKey r))
        = (\<lambda>r. acquired (locks s) (lockKey r))(rid := True)"
    by (auto simp: s' critV_def waitsV_def ridV_def fun_eq_iff nth_append critical_def lockKey_inj
          less_Suc_eq)
  show ?thesis
    unfolding usersInv_def v
    using lockInv_granted[OF inv[unfolded usersInv_def], of rid] False by (simp add: s')
qed

lemma usersInv_leave:
  assumes inv: "usersInv None s" and t: "t < length (puts s)" and c: "critical (puts s ! t)"
    and st: "st \<noteq> AwaitLock" "st \<noteq> AwaitPut" "st \<noteq> AwaitIndex"
  shows "usersInv (Some (recordId (puts s ! t))) (s\<lparr>puts := (puts s)[t := (puts s ! t)\<lparr>stage := st\<rparr>]\<rparr>)"
proof -
  let ?s' = "s\<lparr>puts := (puts s)[t := (puts s ! t)\<lparr>stage := st\<rparr>]\<rparr>"
  have v: "critV ?s' = (critV s)(t := False)" "waitsV ?s' = waitsV s" "ridV ?s' = ridV s"
    using t c st
    by (auto simp: critV_def waitsV_def ridV_def fun_eq_iff nth_list_update critical_def)
  have "critV s t" using t c by (simp add: critV_def)
  from lockInv_leave[OF inv[unfolded usersInv_def] this]
  show ?thesis unfolding usersInv_def v using t by (simp add: ridV_def)
qed

lemma usersInv_release:
  assumes inv: "usersInv (Some rid) s"
  shows "usersInv None (finallyRelease rid s)"
proof (cases "waiting (locks s) (lockKey rid)")
  case Nil
  then have s': "finallyRelease rid s
      = s\<lparr>locks := (locks s)\<lparr>acquired := (acquired (locks s))(lockKey rid := False)\<rparr>\<rparr>"
    by (simp add: finallyRelease_def release_def)
  have v: "critV (finallyRelease rid s) = critV s" "waitsV (finallyRelease rid s) = waitsV s"
    "ridV (finallyRelease rid s) = ridV s"
    "(\<lambda>r. waiting (locks (finallyRelease rid s)) (lockKey r)) = (\<lambda>r. waiting (locks s) (lockKey r))"
    "(\<lambda>r. acquired (locks (finallyRelease rid s)) (lockKey r))
        = (\<lambda>r. acquired (locks s) (lockKey r))(rid := False)"
    by (auto simp: s' critV_def waitsV_def ridV_def fun_eq_iff lockKey_inj)
  show ?thesis
    unfolding usersInv_def v
    using lockInv_free[OF inv[unfolded usersInv_def]] Nil by (simp add: s')
next
  case (Cons t ts)
  then have s': "finallyRelease rid s
      = s\<lparr>locks := (locks s)\<lparr>waiting := (waiting (locks s))(lockKey rid := ts)\<rparr>,
          puts := (puts s)[t := (puts s ! t)\<lparr>stage := AwaitPut\<rparr>]\<rparr>"
    by (simp add: finallyRelease_def release_def)
  note d = lockInvD[OF inv[unfolded usersInv_def]]
  from d(7)[of rid] Cons have "waitsV s t" by auto
  then have t: "t < length (puts s)" by (simp add: waitsV_def)
  have v: "critV (finallyRelease rid s) = (critV s)(t := True)"
    "waitsV (finallyRelease rid s) = (waitsV s)(t := False)"
    "ridV (finallyRelease rid s) = ridV s"
    "(\<lambda>r. waiting (locks (finallyRelease rid s)) (lockKey r))
        = (\<lambda>r. waiting (locks s) (lockKey r))(rid := ts)"
    "(\<lambda>r. acquired (locks (finallyRelease rid s)) (lockKey r)) = (\<lambda>r. acquired (locks s) (lockKey r))"
    using t
    by (auto simp: s' critV_def waitsV_def ridV_def fun_eq_iff lockKey_inj nth_list_update
          critical_def)
  show ?thesis
    unfolding usersInv_def v
    using lockInv_grant[OF inv[unfolded usersInv_def], of t ts] Cons by (simp add: s')
qed

lemma usersInv_advance:
  assumes inv: "usersInv None s" and t: "t < length (puts s)" and c: "stage (puts s ! t) = AwaitPut"
  shows "usersInv None (s\<lparr>puts := (puts s)[t := (puts s ! t)\<lparr>stage := AwaitIndex\<rparr>]\<rparr>)"
proof -
  let ?s' = "s\<lparr>puts := (puts s)[t := (puts s ! t)\<lparr>stage := AwaitIndex\<rparr>]\<rparr>"
  have v: "critV ?s' = critV s" "waitsV ?s' = waitsV s" "ridV ?s' = ridV s"
    using t c
    by (auto simp: critV_def waitsV_def ridV_def fun_eq_iff nth_list_update critical_def)
  show ?thesis unfolding usersInv_def v using inv by (simp add: usersInv_def)
qed

lemma usersInv_emitted: "usersInv h (s\<lparr>emitted := e\<rparr>) = usersInv h s"
proof -
  have "critV (s\<lparr>emitted := e\<rparr>) = critV s" "waitsV (s\<lparr>emitted := e\<rparr>) = waitsV s"
    "ridV (s\<lparr>emitted := e\<rparr>) = ridV s"
    by (simp_all add: fun_eq_iff critV_def waitsV_def ridV_def)
  then show ?thesis by (simp add: usersInv_def)
qed

lemma recordId_update [simp]:
  "recordId ((xs[t := (xs ! t)\<lparr>stage := st\<rparr>]) ! t) = recordId (xs ! t)"
  by (cases "t < length xs") (simp_all add: list_update_beyond)

lemma usersInv_putSettled: "usersInv None s \<Longrightarrow> usersInv None (putSettled t r s)"
proof (cases "t < length (puts s) \<and> stage (puts s ! t) = AwaitPut")
  case False
  assume "usersInv None s"
  moreover from False have "putSettled t r s = s" by (auto simp: putSettled_def)
  ultimately show ?thesis by simp
next
  case True
  assume inv: "usersInv None s"
  from True have c: "critical (puts s ! t)" by (simp add: critical_def)
  show ?thesis
  proof (cases r)
    case None
    then show ?thesis using True usersInv_advance[OF inv, of t] by (simp add: putSettled_def Let_def)
  next
    case (Some e)
    have "usersInv (Some (recordId (puts s ! t)))
        (s\<lparr>puts := (puts s)[t := (puts s ! t)\<lparr>stage := PutThrew e\<rparr>]\<rparr>)"
      using inv True c by (intro usersInv_leave) simp_all
    from usersInv_release[OF this] show ?thesis using True Some
      by (simp add: putSettled_def Let_def)
  qed
qed

lemma finallyRelease_emitted:
  "(finallyRelease rid s)\<lparr>emitted := e\<rparr> = finallyRelease rid (s\<lparr>emitted := e\<rparr>)"
  by (simp add: finallyRelease_def split: prod.splits option.splits)

lemma usersInv_indexSettled: "usersInv None s \<Longrightarrow> usersInv None (indexSettled t r s)"
proof (cases "t < length (puts s) \<and> stage (puts s ! t) = AwaitIndex")
  case False
  assume "usersInv None s"
  moreover from False have "indexSettled t r s = s" by (auto simp: indexSettled_def)
  ultimately show ?thesis by simp
next
  case True
  assume inv: "usersInv None s"
  from True have c: "critical (puts s ! t)" by (simp add: critical_def)
  have l: "usersInv (Some (recordId (puts s ! t)))
        (s\<lparr>puts := (puts s)[t := (puts s ! t)\<lparr>stage := st\<rparr>]\<rparr>)"
    if "st \<noteq> AwaitLock" "st \<noteq> AwaitPut" "st \<noteq> AwaitIndex" for st
    using inv True c that by (intro usersInv_leave) simp_all
  show ?thesis
  proof (cases r)
    case None
    from usersInv_release[OF l[of PutReturned]] show ?thesis using True None
      by (simp add: indexSettled_def Let_def usersInv_emitted)
  next
    case (Some e)
    from usersInv_release[OF l[of "PutThrew e"]] show ?thesis using True Some
      by (simp add: indexSettled_def Let_def)
  qed
qed

lemma usersInv_step: "usersInv None s \<Longrightarrow> usersInv None (usersStep s ev)"
  by (cases ev) (simp_all add: usersInv_put usersInv_putSettled usersInv_indexSettled)

lemma usersInv_run: "usersInv None s \<Longrightarrow> usersInv None (usersRun s evs)"
  unfolding usersRun_def
  by (induction evs arbitrary: s) (simp_all add: usersInv_step)

text \<open>
  C8. In every state that calls of \<open>put\<close> and the answers of the database can lead to:
  two different calls for the same record are never both in their critical section; a
  call for a record whose lock is held is suspended; of two calls for the same record,
  the later one is not granted the lock while the earlier one is still suspended, and
  when the holder releases the lock it goes to the call that has been suspended on this
  record for longest; a call for a record with no call in its critical section gets the
  lock at once, whatever the locks of other records, and a suspended call is always
  suspended behind a call for its own record.
\<close>

theorem keyed_mutex:
  "(\<forall>t1<length (puts (usersRun usersInit evs)). \<forall>t2<length (puts (usersRun usersInit evs)).
      critical (puts (usersRun usersInit evs) ! t1) \<and> critical (puts (usersRun usersInit evs) ! t2)
      \<and> recordId (puts (usersRun usersInit evs) ! t1) = recordId (puts (usersRun usersInit evs) ! t2)
      \<longrightarrow> t1 = t2)
   \<and> ((\<exists>t<length (puts (usersRun usersInit evs)).
          critical (puts (usersRun usersInit evs) ! t) \<and> recordId (puts (usersRun usersInit evs) ! t) = rid)
        \<longrightarrow> stage (puts (put rid (usersRun usersInit evs)) ! length (puts (usersRun usersInit evs)))
              = AwaitLock)
   \<and> (\<forall>t2<length (puts (usersRun usersInit evs)). \<forall>t1<t2.
        recordId (puts (usersRun usersInit evs) ! t1) = recordId (puts (usersRun usersInit evs) ! t2)
        \<and> stage (puts (usersRun usersInit evs) ! t1) = AwaitLock
        \<longrightarrow> stage (puts (usersRun usersInit evs) ! t2) = AwaitLock)
   \<and> (t0 < length (puts (usersRun usersInit evs))
        \<and> stage (puts (usersRun usersInit evs) ! t0) = AwaitIndex
        \<and> waiting (locks (usersRun usersInit evs))
             (lockKey (recordId (puts (usersRun usersInit evs) ! t0))) = t # ts
        \<longrightarrow> stage (puts (indexSettled t0 r (usersRun usersInit evs)) ! t) = AwaitPut
            \<and> recordId (puts (usersRun usersInit evs) ! t) = recordId (puts (usersRun usersInit evs) ! t0)
            \<and> (\<forall>t'<length (puts (usersRun usersInit evs)).
                  stage (puts (usersRun usersInit evs) ! t') = AwaitLock
                  \<and> recordId (puts (usersRun usersInit evs) ! t')
                      = recordId (puts (usersRun usersInit evs) ! t0)
                  \<longrightarrow> t \<le> t'))
   \<and> (\<not> (\<exists>t<length (puts (usersRun usersInit evs)).
          critical (puts (usersRun usersInit evs) ! t) \<and> recordId (puts (usersRun usersInit evs) ! t) = rid)
        \<longrightarrow> stage (puts (put rid (usersRun usersInit evs)) ! length (puts (usersRun usersInit evs)))
              = AwaitPut)
   \<and> (\<forall>t<length (puts (usersRun usersInit evs)).
        stage (puts (usersRun usersInit evs) ! t) = AwaitLock \<longrightarrow>
        (\<exists>t'<length (puts (usersRun usersInit evs)).
           critical (puts (usersRun usersInit evs) ! t')
           \<and> recordId (puts (usersRun usersInit evs) ! t') = recordId (puts (usersRun usersInit evs) ! t)))"
proof -
  let ?s = "usersRun usersInit evs"
  have inv: "usersInv None ?s" using usersInv_init by (rule usersInv_run)
  note d = lockInvD[OF inv[unfolded usersInv_def]]
  have acq: "acquired (locks ?s) (lockKey x)
      = (\<exists>t<length (puts ?s). critical (puts ?s ! t) \<and> recordId (puts ?s ! t) = x)" for x
    using d(1)[of x] by (auto simp: critV_def ridV_def)
  have 1: "\<forall>t1<length (puts ?s). \<forall>t2<length (puts ?s).
      critical (puts ?s ! t1) \<and> critical (puts ?s ! t2)
      \<and> recordId (puts ?s ! t1) = recordId (puts ?s ! t2) \<longrightarrow> t1 = t2"
  proof (intro allI impI)
    fix t1 t2 assume "t1 < length (puts ?s)" "t2 < length (puts ?s)"
      "critical (puts ?s ! t1) \<and> critical (puts ?s ! t2)
         \<and> recordId (puts ?s ! t1) = recordId (puts ?s ! t2)"
    then have "critV ?s t1" "critV ?s t2" "ridV ?s t1 = ridV ?s t2"
      by (simp_all add: critV_def ridV_def)
    then show "t1 = t2" by (rule d(3))
  qed
  have 2: "stage (puts (put rid ?s) ! length (puts ?s)) = AwaitLock"
    if "\<exists>t<length (puts ?s). critical (puts ?s ! t) \<and> recordId (puts ?s ! t) = rid"
    using that acq[of rid] by (simp add: put_def acquire_def)
  have 3: "\<forall>t2<length (puts ?s). \<forall>t1<t2.
        recordId (puts ?s ! t1) = recordId (puts ?s ! t2) \<and> stage (puts ?s ! t1) = AwaitLock
        \<longrightarrow> stage (puts ?s ! t2) = AwaitLock"
  proof (intro allI impI)
    fix t2 t1 assume a: "t2 < length (puts ?s)" "t1 < t2"
      "recordId (puts ?s ! t1) = recordId (puts ?s ! t2) \<and> stage (puts ?s ! t1) = AwaitLock"
    then have "ridV ?s t1 = ridV ?s t2" "waitsV ?s t1" by (simp_all add: ridV_def waitsV_def)
    with a(2,1) have "waitsV ?s t2" by (rule d(9))
    then show "stage (puts ?s ! t2) = AwaitLock" by (simp add: waitsV_def)
  qed
  have 4: "stage (puts (indexSettled t0 r ?s) ! t) = AwaitPut
            \<and> recordId (puts ?s ! t) = recordId (puts ?s ! t0)
            \<and> (\<forall>t'<length (puts ?s).
                  stage (puts ?s ! t') = AwaitLock
                  \<and> recordId (puts ?s ! t') = recordId (puts ?s ! t0) \<longrightarrow> t \<le> t')"
    if h: "t0 < length (puts ?s) \<and> stage (puts ?s ! t0) = AwaitIndex
        \<and> waiting (locks ?s) (lockKey (recordId (puts ?s ! t0))) = t # ts"
  proof -
    let ?r = "recordId (puts ?s ! t0)"
    from h have q: "waiting (locks ?s) (lockKey ?r) = t # ts" by simp
    from d(7)[of ?r] q have w: "waitsV ?s t" "ridV ?s t = ?r" by auto
    then have tl: "t < length (puts ?s)" and tr: "recordId (puts ?s ! t) = ?r"
      by (simp_all add: waitsV_def ridV_def)
    have a: "stage (puts (indexSettled t0 r ?s) ! t) = AwaitPut"
      using h tl by (cases r) (simp_all add: indexSettled_def Let_def finallyRelease_def release_def)
    have c: "t \<le> t'" if "t' < length (puts ?s)"
      "stage (puts ?s ! t') = AwaitLock \<and> recordId (puts ?s ! t') = ?r" for t'
    proof -
      from that have "waitsV ?s t' \<and> ridV ?s t' = ?r" by (simp add: waitsV_def ridV_def)
      with d(7)[of ?r] q have "t' \<in> set (t # ts)" by simp
      moreover from d(6)[of ?r] q have "\<forall>x\<in>set ts. t < x" by simp
      ultimately show ?thesis by auto
    qed
    from a tr c show ?thesis by blast
  qed
  have 5: "stage (puts (put rid ?s) ! length (puts ?s)) = AwaitPut"
    if "\<not> (\<exists>t<length (puts ?s). critical (puts ?s ! t) \<and> recordId (puts ?s ! t) = rid)"
    using that acq[of rid] by (simp add: put_def acquire_def)
  have 6: "\<forall>t<length (puts ?s). stage (puts ?s ! t) = AwaitLock \<longrightarrow>
        (\<exists>t'<length (puts ?s). critical (puts ?s ! t')
           \<and> recordId (puts ?s ! t') = recordId (puts ?s ! t))"
  proof (intro allI impI)
    fix t assume a: "t < length (puts ?s)" "stage (puts ?s ! t) = AwaitLock"
    then have "t \<in> set (waiting (locks ?s) (lockKey (recordId (puts ?s ! t))))"
      using d(7)[of "recordId (puts ?s ! t)"] by (simp add: waitsV_def ridV_def)
    then have "waiting (locks ?s) (lockKey (recordId (puts ?s ! t))) \<noteq> []" by auto
    then have "acquired (locks ?s) (lockKey (recordId (puts ?s ! t)))" by (rule d(8))
    then show "\<exists>t'<length (puts ?s). critical (puts ?s ! t')
           \<and> recordId (puts ?s ! t') = recordId (puts ?s ! t)" by (simp add: acq)
  qed
  from 1 2 3 4 5 6 show ?thesis by blast
qed

text \<open>The theorem at the state after \<open>contendedEvents\<close>.\<close>

theorem keyed_mutex_witness:
  "map stage (puts (usersRun usersInit contendedEvents)) = [AwaitIndex, AwaitLock, AwaitLock, AwaitPut]
   \<and> map recordId (puts (usersRun usersInit contendedEvents)) = [''u1'', ''u1'', ''u1'', ''u2'']
   \<and> waiting (locks (usersRun usersInit contendedEvents)) (lockKey ''u1'') = [1, 2]
   \<and> stage (puts (put ''u1'' (usersRun usersInit contendedEvents)) ! 4) = AwaitLock
   \<and> stage (puts (put ''u3'' (usersRun usersInit contendedEvents)) ! 4) = AwaitPut
   \<and> stage (puts (indexSettled 0 None (usersRun usersInit contendedEvents)) ! 1) = AwaitPut"
proof -
  let ?s = "usersRun usersInit contendedEvents"
  have h1: "map stage (puts ?s) = [AwaitIndex, AwaitLock, AwaitLock, AwaitPut]" by code_simp
  have h2: "map recordId (puts ?s) = [''u1'', ''u1'', ''u1'', ''u2'']" by code_simp
  have h3: "waiting (locks ?s) (lockKey ''u1'') = [1, 2]" by code_simp
  have l: "length (puts ?s) = 4" by code_simp
  have st: "stage (puts ?s ! 0) = AwaitIndex" by code_simp
  have r0: "recordId (puts ?s ! 0) = ''u1''" by code_simp
  have c0: "critical (puts ?s ! 0)" using st by (simp add: critical_def)
  note T = keyed_mutex[where evs=contendedEvents and rid="''u1''" and ?t0.0=0 and t=1 and ts="[2]" and r=None]
  note U = keyed_mutex[where evs=contendedEvents and rid="''u3''" and ?t0.0=0 and t=1 and ts="[2]" and r=None]
  have a1: "stage (puts (put ''u1'' ?s) ! 4) = AwaitLock"
    using T c0 r0 l by (metis zero_less_numeral)
  have a2: "stage (puts (indexSettled 0 None ?s) ! 1) = AwaitPut"
    using T st r0 h3 l by simp
  have nc: "\<not> (\<exists>t<length (puts ?s). critical (puts ?s ! t) \<and> recordId (puts ?s ! t) = ''u3'')"
  proof
    assume "\<exists>t<length (puts ?s). critical (puts ?s ! t) \<and> recordId (puts ?s ! t) = ''u3''"
    then obtain t where t: "t < length (puts ?s)" "recordId (puts ?s ! t) = ''u3''" by blast
    then have "map recordId (puts ?s) ! t = ''u3''" by simp
    with t(1) l show False unfolding h2 by (auto simp: nth_Cons' split: if_splits)
  qed
  have a3: "stage (puts (put ''u3'' ?s) ! 4) = AwaitPut" using U nc l by simp
  from h1 h2 h3 a1 a3 a2 show ?thesis by blast
qed

end
